theory Spec2Isabelle
  imports Main "HOL-Library.Signed_Division"
begin

section \<open>Common types\<close>

text \<open>
  Keys are C \<open>int\<close>s. The program only compares and copies them, so they are modelled as
  \<open>int\<close>. Sizes and indices are C \<open>int\<close>s as well; the only arithmetic on them is
  \<open>+ 1\<close>, \<open>- 1\<close> and halving of values bounded by a store capacity. C's \<open>/\<close> truncates
  towards zero and is written \<open>sdiv\<close>.

  A pointer to a tree node (and the \<open>void*\<close> value slot of a store, which holds either
  \<open>0\<close> or a node pointer) is \<open>None\<close> for \<open>NULL\<close> and \<open>Some a\<close> for the node at
  address \<open>a\<close>.
\<close>

type_synonym key = int
type_synonym addr = nat
type_synonym ptr = "addr option"

text \<open>
  Every way in which a call can fail to return normally is an error value:
  a dereference of \<open>NULL\<close> or of a freed node, a failed \<open>assert\<close> (the capacity
  assertion of \<open>ns_insert_at\<close> has a constructor of its own), an access outside an
  allocated array or a read of a cell that was never written, a store handed to the
  operations table of another backend, a failed allocation, and a pointer walk that
  never ends.
\<close>

datatype error =
    Null_deref
  | Assert_failed
  | Capacity_assert
  | Out_of_bounds
  | Uninit_read
  | Wrong_store
  | Alloc_failed
  | Diverges

definition rbind :: "error + 'a \<Rightarrow> ('a \<Rightarrow> error + 'b) \<Rightarrow> error + 'b" where
  "rbind m f = (case m of Inl e \<Rightarrow> Inl e | Inr x \<Rightarrow> f x)"

definition assert :: "bool \<Rightarrow> error + unit" where
  "assert b = (if b then Inr () else Inl Assert_failed)"

section \<open>nodestore_array.c\<close>

text \<open>
  \<open>struct NodeStore { int cap; int n; int* keys; void** vals; }\<close>. The two arrays are
  \<open>malloc\<close>ed with \<open>cap\<close> cells each; a cell is \<open>None\<close> until it is first written.
\<close>

record ArrayStore =
  arr_cap :: int
  arr_n :: int
  arr_keys :: "key option list"
  arr_vals :: "ptr option list"

definition cell_read :: "'a option list \<Rightarrow> int \<Rightarrow> error + 'a" where
  "cell_read xs i =
     (if 0 \<le> i \<and> i < int (length xs)
      then (case xs ! nat i of None \<Rightarrow> Inl Uninit_read | Some v \<Rightarrow> Inr v)
      else Inl Out_of_bounds)"

definition cell_write :: "'a option list \<Rightarrow> int \<Rightarrow> 'a option \<Rightarrow> error + 'a option list" where
  "cell_write xs i c =
     (if 0 \<le> i \<and> i < int (length xs) then Inr (xs[nat i := c]) else Inl Out_of_bounds)"

definition cell_get :: "'a option list \<Rightarrow> int \<Rightarrow> error + 'a option" where
  "cell_get xs i =
     (if 0 \<le> i \<and> i < int (length xs) then Inr (xs ! nat i) else Inl Out_of_bounds)"

definition arr_ns_create :: "int \<Rightarrow> ArrayStore option" where
  "arr_ns_create capacity =
     (if capacity \<le> 0 then None
      else Some \<lparr>arr_cap = capacity, arr_n = 0,
                 arr_keys = replicate (nat capacity) None,
                 arr_vals = replicate (nat capacity) None\<rparr>)"

definition arr_ns_size :: "'a ArrayStore_scheme \<Rightarrow> int" where
  "arr_ns_size s = arr_n s"

definition arr_ns_capacity :: "'a ArrayStore_scheme \<Rightarrow> int" where
  "arr_ns_capacity s = arr_cap s"

definition arr_ns_clear :: "'a ArrayStore_scheme \<Rightarrow> 'a ArrayStore_scheme" where
  "arr_ns_clear s = s\<lparr>arr_n := 0\<rparr>"

definition arr_ns_key_at :: "'a ArrayStore_scheme \<Rightarrow> int \<Rightarrow> error + key" where
  "arr_ns_key_at s idx =
     rbind (assert (idx \<ge> 0 \<and> idx < arr_n s)) (\<lambda>_. cell_read (arr_keys s) idx)"

definition arr_ns_val_at :: "'a ArrayStore_scheme \<Rightarrow> int \<Rightarrow> error + ptr" where
  "arr_ns_val_at s idx =
     rbind (assert (idx \<ge> 0 \<and> idx < arr_n s)) (\<lambda>_. cell_read (arr_vals s) idx)"

definition arr_ns_set_val :: "'a ArrayStore_scheme \<Rightarrow> int \<Rightarrow> ptr \<Rightarrow> error + 'a ArrayStore_scheme" where
  "arr_ns_set_val s idx v =
     rbind (assert (idx \<ge> 0 \<and> idx < arr_n s)) (\<lambda>_.
     rbind (cell_write (arr_vals s) idx (Some v)) (\<lambda>vs.
     Inr (s\<lparr>arr_vals := vs\<rparr>)))"

text \<open>The binary search of \<open>ns_lower_bound\<close>: \<open>while (l < r)\<close> on the pair \<open>(l, r)\<close>.\<close>

function arr_lb_loop :: "key option list \<Rightarrow> key \<Rightarrow> int \<Rightarrow> int \<Rightarrow> error + int" where
  "arr_lb_loop ks k l r =
     (if l < r then
        (let m = l + (r - l) sdiv 2 in
         rbind (cell_read ks m) (\<lambda>km.
         if km < k then arr_lb_loop ks k (m + 1) r else arr_lb_loop ks k l m))
      else Inr l)"
  by pat_completeness auto
termination
proof (relation "measure (\<lambda>(ks, k, l, r). nat (r - l))")
  show "wf (measure (\<lambda>(ks, k, l, r). nat (r - l)))"
    by simp
next
  fix ks :: "key option list" and k l r m :: int
  assume "l < r" and m: "m = l + (r - l) sdiv 2"
  then have "0 \<le> (r - l) sdiv 2" "(r - l) sdiv 2 < r - l"
    by (simp_all add: signed_divide_int_def sgn_if)
  with m \<open>l < r\<close>
  show "((ks, k, m + 1, r), (ks, k, l, r)) \<in> measure (\<lambda>(ks, k, l, r). nat (r - l))"
    by simp
next
  fix ks :: "key option list" and k l r m :: int
  assume "l < r" and m: "m = l + (r - l) sdiv 2"
  then have "0 \<le> (r - l) sdiv 2" "(r - l) sdiv 2 < r - l"
    by (simp_all add: signed_divide_int_def sgn_if)
  with m \<open>l < r\<close>
  show "((ks, k, l, m), (ks, k, l, r)) \<in> measure (\<lambda>(ks, k, l, r). nat (r - l))"
    by simp
qed

declare arr_lb_loop.simps [simp del]

definition arr_ns_lower_bound :: "'a ArrayStore_scheme \<Rightarrow> key \<Rightarrow> error + int" where
  "arr_ns_lower_bound s k = arr_lb_loop (arr_keys s) k 0 (arr_n s)"

text \<open>
  The shifting loops of \<open>ns_insert_at\<close> (\<open>for (i = n; i > idx; --i)\<close>) and
  \<open>ns_erase_at\<close> (\<open>for (i = idx; i < n - 1; ++i)\<close>); each step copies one key cell and
  one value cell.
\<close>

function arr_shift_up :: "'a ArrayStore_scheme \<Rightarrow> int \<Rightarrow> int \<Rightarrow> error + 'a ArrayStore_scheme" where
  "arr_shift_up s i idx =
     (if i > idx then
        rbind (cell_get (arr_keys s) (i - 1)) (\<lambda>kc.
        rbind (cell_write (arr_keys s) i kc) (\<lambda>ks.
        rbind (cell_get (arr_vals s) (i - 1)) (\<lambda>vc.
        rbind (cell_write (arr_vals s) i vc) (\<lambda>vs.
        arr_shift_up (s\<lparr>arr_keys := ks, arr_vals := vs\<rparr>) (i - 1) idx))))
      else Inr s)"
  by pat_completeness auto
termination
  by (relation "measure (\<lambda>(s, i, idx). nat (i - idx))") auto

declare arr_shift_up.simps [simp del]

function arr_shift_down :: "'a ArrayStore_scheme \<Rightarrow> int \<Rightarrow> error + 'a ArrayStore_scheme" where
  "arr_shift_down s i =
     (if i < arr_n s - 1 then
        rbind (cell_get (arr_keys s) (i + 1)) (\<lambda>kc.
        rbind (cell_write (arr_keys s) i kc) (\<lambda>ks.
        rbind (cell_get (arr_vals s) (i + 1)) (\<lambda>vc.
        rbind (cell_write (arr_vals s) i vc) (\<lambda>vs.
        arr_shift_down (s\<lparr>arr_keys := ks, arr_vals := vs\<rparr>) (i + 1)))))
      else Inr s)"
  by pat_completeness auto
termination
  by (relation "measure (\<lambda>(s, i). nat (arr_n s - 1 - i))") auto

declare arr_shift_down.simps [simp del]

definition arr_ns_insert_at :: "'a ArrayStore_scheme \<Rightarrow> int \<Rightarrow> key \<Rightarrow> ptr \<Rightarrow> error + 'a ArrayStore_scheme" where
  "arr_ns_insert_at s idx k v =
     rbind (assert (idx \<ge> 0 \<and> idx \<le> arr_n s)) (\<lambda>_.
     if \<not> arr_n s < arr_cap s then Inl Capacity_assert
     else
       rbind (arr_shift_up s (arr_n s) idx) (\<lambda>s1.
       rbind (cell_write (arr_keys s1) idx (Some k)) (\<lambda>ks.
       rbind (cell_write (arr_vals s1) idx (Some v)) (\<lambda>vs.
       Inr (s1\<lparr>arr_keys := ks, arr_vals := vs, arr_n := arr_n s1 + 1\<rparr>)))))"

definition arr_ns_erase_at :: "'a ArrayStore_scheme \<Rightarrow> int \<Rightarrow> error + 'a ArrayStore_scheme" where
  "arr_ns_erase_at s idx =
     rbind (assert (idx \<ge> 0 \<and> idx < arr_n s)) (\<lambda>_.
     rbind (arr_shift_down s idx) (\<lambda>s1.
     Inr (s1\<lparr>arr_n := arr_n s1 - 1\<rparr>)))"

text \<open>
  \<open>ns_split\<close>: the copying loop \<open>for (i = 0; i < move; ++i)\<close> writes into the arrays of
  \<open>right\<close>; the result is the pair of stores and the returned key \<open>right->keys[0]\<close>.
\<close>

function arr_split_loop ::
  "'a ArrayStore_scheme \<Rightarrow> 'a ArrayStore_scheme \<Rightarrow> int \<Rightarrow> int \<Rightarrow> int
     \<Rightarrow> error + 'a ArrayStore_scheme" where
  "arr_split_loop left right mid move i =
     (if i < move then
        rbind (cell_get (arr_keys left) (mid + i)) (\<lambda>kc.
        rbind (cell_write (arr_keys right) i kc) (\<lambda>ks.
        rbind (cell_get (arr_vals left) (mid + i)) (\<lambda>vc.
        rbind (cell_write (arr_vals right) i vc) (\<lambda>vs.
        arr_split_loop left (right\<lparr>arr_keys := ks, arr_vals := vs\<rparr>) mid move (i + 1)))))
      else Inr right)"
  by pat_completeness auto
termination
  by (relation "measure (\<lambda>(left, right, mid, move, i). nat (move - i))") auto

declare arr_split_loop.simps [simp del]

definition arr_ns_split :: "ArrayStore \<Rightarrow> ArrayStore \<Rightarrow> error + (ArrayStore \<times> ArrayStore \<times> key)" where
  "arr_ns_split left right =
     rbind (assert (arr_n right = 0)) (\<lambda>_.
     let n = arr_n left; mid = n sdiv 2; move = n - mid in
     rbind (assert (move \<le> arr_cap right)) (\<lambda>_.
     rbind (arr_split_loop left right mid move 0) (\<lambda>r1.
     let r2 = r1\<lparr>arr_n := move\<rparr>; l2 = left\<lparr>arr_n := mid\<rparr> in
     rbind (cell_read (arr_keys r2) 0) (\<lambda>sep.
     Inr (l2, r2, sep)))))"

section \<open>nodestore_list.c\<close>

text \<open>
  \<open>struct NodeStore { int cap; int n; ListNode* head; }\<close>. The chain of \<open>ListNode\<close>s
  reached from \<open>head\<close> through \<open>next\<close> is the list of their \<open>(key, val)\<close> pairs; a
  pointer into the chain is the rest of the chain from that node on, and \<open>[]\<close> is
  \<open>NULL\<close>.
\<close>

record ListStore =
  lst_cap :: int
  lst_n :: int
  lst_head :: "(key \<times> ptr) list"

text \<open>\<open>for (int i = 0; i < idx; ++i) cur = cur->next;\<close>\<close>

function lst_walk :: "(key \<times> ptr) list \<Rightarrow> int \<Rightarrow> int \<Rightarrow> error + (key \<times> ptr) list" where
  "lst_walk cur i idx =
     (if i < idx then
        (case cur of [] \<Rightarrow> Inl Null_deref | _ # nx \<Rightarrow> lst_walk nx (i + 1) idx)
      else Inr cur)"
  by pat_completeness auto
termination
  by (relation "measure (\<lambda>(cur, i, idx). nat (idx - i))") auto

declare lst_walk.simps [simp del]

definition list_at :: "ListStore \<Rightarrow> int \<Rightarrow> error + (key \<times> ptr) list" where
  "list_at s idx =
     rbind (assert (idx \<ge> 0 \<and> idx < lst_n s)) (\<lambda>_. lst_walk (lst_head s) 0 idx)"

definition lst_ns_create :: "int \<Rightarrow> ListStore option" where
  "lst_ns_create capacity = Some \<lparr>lst_cap = capacity, lst_n = 0, lst_head = []\<rparr>"

definition lst_ns_size :: "ListStore \<Rightarrow> int" where
  "lst_ns_size s = lst_n s"

definition lst_ns_capacity :: "ListStore \<Rightarrow> int" where
  "lst_ns_capacity s = lst_cap s"

definition lst_ns_clear :: "ListStore \<Rightarrow> ListStore" where
  "lst_ns_clear s = s\<lparr>lst_head := [], lst_n := 0\<rparr>"

definition lst_ns_key_at :: "ListStore \<Rightarrow> int \<Rightarrow> error + key" where
  "lst_ns_key_at s idx =
     rbind (list_at s idx) (\<lambda>x. case x of [] \<Rightarrow> Inl Null_deref | (k, v) # _ \<Rightarrow> Inr k)"

definition lst_ns_val_at :: "ListStore \<Rightarrow> int \<Rightarrow> error + ptr" where
  "lst_ns_val_at s idx =
     rbind (list_at s idx) (\<lambda>x. case x of [] \<Rightarrow> Inl Null_deref | (k, v) # _ \<Rightarrow> Inr v)"

definition lst_ns_set_val :: "ListStore \<Rightarrow> int \<Rightarrow> ptr \<Rightarrow> error + ListStore" where
  "lst_ns_set_val s idx v =
     rbind (list_at s idx) (\<lambda>x. case x of
         [] \<Rightarrow> Inl Null_deref
       | (k, _) # nx \<Rightarrow> Inr (s\<lparr>lst_head := take (nat idx) (lst_head s) @ (k, v) # nx\<rparr>))"

text \<open>\<open>for (cur = head; cur; cur = cur->next, ++idx) if (cur->key >= key) break;\<close>\<close>

fun lst_lb_loop :: "(key \<times> ptr) list \<Rightarrow> key \<Rightarrow> int \<Rightarrow> int" where
  "lst_lb_loop [] k idx = idx"
| "lst_lb_loop ((ck, cv) # nx) k idx = (if ck \<ge> k then idx else lst_lb_loop nx k (idx + 1))"

definition lst_ns_lower_bound :: "ListStore \<Rightarrow> key \<Rightarrow> error + int" where
  "lst_ns_lower_bound s k = Inr (lst_lb_loop (lst_head s) k 0)"

definition lst_ns_insert_at :: "ListStore \<Rightarrow> int \<Rightarrow> key \<Rightarrow> ptr \<Rightarrow> error + ListStore" where
  "lst_ns_insert_at s idx k v =
     rbind (assert (idx \<ge> 0 \<and> idx \<le> lst_n s)) (\<lambda>_.
     if \<not> lst_n s < lst_cap s then Inl Capacity_assert
     else if idx = 0 then
       Inr (s\<lparr>lst_head := (k, v) # lst_head s, lst_n := lst_n s + 1\<rparr>)
     else
       rbind (list_at s (idx - 1)) (\<lambda>prev. case prev of
           [] \<Rightarrow> Inl Null_deref
         | p # nx \<Rightarrow>
             Inr (s\<lparr>lst_head := take (nat (idx - 1)) (lst_head s) @ p # (k, v) # nx,
                    lst_n := lst_n s + 1\<rparr>)))"

definition lst_ns_erase_at :: "ListStore \<Rightarrow> int \<Rightarrow> error + ListStore" where
  "lst_ns_erase_at s idx =
     rbind (assert (idx \<ge> 0 \<and> idx < lst_n s)) (\<lambda>_.
     if idx = 0 then
       (case lst_head s of
          [] \<Rightarrow> Inl Null_deref
        | del # nx \<Rightarrow> Inr (s\<lparr>lst_head := nx, lst_n := lst_n s - 1\<rparr>))
     else
       rbind (list_at s (idx - 1)) (\<lambda>prev. case prev of
           [] \<Rightarrow> Inl Null_deref
         | p # [] \<Rightarrow> Inl Null_deref
         | p # del # nx \<Rightarrow>
             Inr (s\<lparr>lst_head := take (nat (idx - 1)) (lst_head s) @ p # nx,
                    lst_n := lst_n s - 1\<rparr>)))"

text \<open>
  \<open>ns_split\<close>: \<open>mid\<close> is raised to \<open>1\<close> when it is \<open>0\<close>; the walk of \<open>mid\<close> steps
  leaves \<open>cur\<close> at the first node for \<open>right\<close>, the chain of \<open>left\<close> is cut before
  it (\<open>prev->next = NULL\<close>, when a step was taken), and \<open>assert(right->head)\<close> guards the
  returned key.
\<close>

definition lst_ns_split :: "ListStore \<Rightarrow> ListStore \<Rightarrow> error + (ListStore \<times> ListStore \<times> key)" where
  "lst_ns_split left right =
     rbind (assert (lst_n right = 0)) (\<lambda>_.
     let n = lst_n left;
         mid0 = n sdiv 2;
         mid = (if mid0 = 0 then 1 else mid0) in
     rbind (lst_walk (lst_head left) 0 mid) (\<lambda>cur.
     let r2 = right\<lparr>lst_head := cur, lst_n := n - mid\<rparr>;
         l2 = left\<lparr>lst_head := (if 0 < mid then take (nat mid) (lst_head left)
                                  else lst_head left),
                    lst_n := mid\<rparr> in
     (case cur of
        [] \<Rightarrow> Inl Assert_failed
      | (k, v) # _ \<Rightarrow> Inr (l2, r2, k))))"

section \<open>skiplist.c\<close>

text \<open>
  Both skip lists of the repository draw the height of a new node from a random
  generator compared against a \<open>double\<close>; the heights are not modelled. A skip list is
  its level-0 chain, the ascending list of its nodes: every higher level is a sublist of
  level 0, so the descent \<open>while (x->forward[i] && x->forward[i]->key < key)\<close> ends at the
  last level-0 node whose key is below \<open>key\<close>.

  The first skip list stores keys only (\<open>bool skiplist_insert(SkipList*, int)\<close>).
\<close>

definition skiplist_insert :: "key list \<Rightarrow> key \<Rightarrow> key list" where
  "skiplist_insert sl k =
     (let pre = takeWhile (\<lambda>x. x < k) sl; post = dropWhile (\<lambda>x. x < k) sl in
      case post of
        [] \<Rightarrow> pre @ [k]
      | x # _ \<Rightarrow> if x = k then sl else pre @ k # post)"

text \<open>
  The second skip list stores a value with each key and counts its nodes
  (\<open>struct SkipList { ...; int n; struct SkipNode* header; ... }\<close>). A \<open>SkipNode*\<close> is the
  rest of the level-0 chain from that node on; the accessors \<open>skipnode_next0\<close>,
  \<open>skipnode_key\<close> and \<open>skipnode_val\<close> accept \<open>NULL\<close>.
\<close>

record SkipList =
  sl_n :: int
  sl_chain :: "(key \<times> ptr) list"

definition skiplist_create2 :: SkipList where
  "skiplist_create2 = \<lparr>sl_n = 0, sl_chain = []\<rparr>"

definition skiplist_size :: "SkipList \<Rightarrow> int" where
  "skiplist_size sl = sl_n sl"

definition skiplist_first :: "SkipList \<Rightarrow> (key \<times> ptr) list" where
  "skiplist_first sl = sl_chain sl"

definition skipnode_next0 :: "(key \<times> ptr) list \<Rightarrow> (key \<times> ptr) list" where
  "skipnode_next0 x = (case x of [] \<Rightarrow> [] | _ # nx \<Rightarrow> nx)"

definition skipnode_key :: "(key \<times> ptr) list \<Rightarrow> key" where
  "skipnode_key x = (case x of [] \<Rightarrow> 0 | (k, v) # _ \<Rightarrow> k)"

definition skipnode_val :: "(key \<times> ptr) list \<Rightarrow> ptr" where
  "skipnode_val x = (case x of [] \<Rightarrow> None | (k, v) # _ \<Rightarrow> v)"

definition skiplist_insert2 :: "SkipList \<Rightarrow> key \<Rightarrow> ptr \<Rightarrow> SkipList" where
  "skiplist_insert2 sl k v =
     (let pre = takeWhile (\<lambda>e. fst e < k) (sl_chain sl);
          post = dropWhile (\<lambda>e. fst e < k) (sl_chain sl) in
      case post of
        [] \<Rightarrow> sl\<lparr>sl_chain := pre @ [(k, v)], sl_n := sl_n sl + 1\<rparr>
      | x # nx \<Rightarrow>
          if fst x = k then sl\<lparr>sl_chain := pre @ (k, v) # nx\<rparr>
          else sl\<lparr>sl_chain := pre @ (k, v) # post, sl_n := sl_n sl + 1\<rparr>)"

definition skiplist_erase2 :: "SkipList \<Rightarrow> key \<Rightarrow> SkipList" where
  "skiplist_erase2 sl k =
     (let pre = takeWhile (\<lambda>e. fst e < k) (sl_chain sl);
          post = dropWhile (\<lambda>e. fst e < k) (sl_chain sl) in
      case post of
        [] \<Rightarrow> sl
      | x # nx \<Rightarrow>
          if fst x = k then sl\<lparr>sl_chain := pre @ nx, sl_n := sl_n sl - 1\<rparr> else sl)"

section \<open>nodestore_skip.c\<close>

subsection \<open>The skip list as the store\<close>

text \<open>
  \<open>struct NodeStore { int cap; SkipList* sl; }\<close> over the second skip list: entries are
  kept in key order by \<open>skiplist_insert\<close>, whatever index the caller passes.
\<close>

record Skip1Store =
  sk1_cap :: int
  sk1_sl :: SkipList

function sk1_walk :: "(key \<times> ptr) list \<Rightarrow> int \<Rightarrow> int \<Rightarrow> (key \<times> ptr) list" where
  "sk1_walk x i idx = (if i < idx then sk1_walk (skipnode_next0 x) (i + 1) idx else x)"
  by pat_completeness auto
termination
  by (relation "measure (\<lambda>(x, i, idx). nat (idx - i))") auto

declare sk1_walk.simps [simp del]

definition at_index :: "Skip1Store \<Rightarrow> int \<Rightarrow> error + (key \<times> ptr) list" where
  "at_index s idx =
     (let n = skiplist_size (sk1_sl s) in
      rbind (assert (idx \<ge> 0 \<and> idx < n)) (\<lambda>_.
      Inr (sk1_walk (skiplist_first (sk1_sl s)) 0 idx)))"

definition sk1_ns_create :: "int \<Rightarrow> Skip1Store option" where
  "sk1_ns_create capacity = Some \<lparr>sk1_cap = capacity, sk1_sl = skiplist_create2\<rparr>"

definition sk1_ns_size :: "Skip1Store \<Rightarrow> int" where
  "sk1_ns_size s = skiplist_size (sk1_sl s)"

definition sk1_ns_capacity :: "Skip1Store \<Rightarrow> int" where
  "sk1_ns_capacity s = sk1_cap s"

definition sk1_ns_clear :: "Skip1Store \<Rightarrow> Skip1Store" where
  "sk1_ns_clear s = s\<lparr>sk1_sl := skiplist_create2\<rparr>"

definition sk1_ns_key_at :: "Skip1Store \<Rightarrow> int \<Rightarrow> error + key" where
  "sk1_ns_key_at s idx = rbind (at_index s idx) (\<lambda>x. Inr (skipnode_key x))"

definition sk1_ns_val_at :: "Skip1Store \<Rightarrow> int \<Rightarrow> error + ptr" where
  "sk1_ns_val_at s idx = rbind (at_index s idx) (\<lambda>x. Inr (skipnode_val x))"

definition sk1_ns_set_val :: "Skip1Store \<Rightarrow> int \<Rightarrow> ptr \<Rightarrow> error + Skip1Store" where
  "sk1_ns_set_val s idx v =
     rbind (at_index s idx) (\<lambda>x. case x of
         [] \<Rightarrow> Inr s
       | (k, _) # nx \<Rightarrow>
           Inr (s\<lparr>sk1_sl := (sk1_sl s)\<lparr>sl_chain :=
                  take (nat idx) (sl_chain (sk1_sl s)) @ (k, v) # nx\<rparr>\<rparr>))"

text \<open>\<open>while (x && skipnode_key(x) < key) { x = skipnode_next0(x); idx++; }\<close>\<close>

fun sk1_lb_loop :: "(key \<times> ptr) list \<Rightarrow> key \<Rightarrow> int \<Rightarrow> int" where
  "sk1_lb_loop [] k idx = idx"
| "sk1_lb_loop ((ck, cv) # nx) k idx = (if ck < k then sk1_lb_loop nx k (idx + 1) else idx)"

definition sk1_ns_lower_bound :: "Skip1Store \<Rightarrow> key \<Rightarrow> error + int" where
  "sk1_ns_lower_bound s k = Inr (sk1_lb_loop (skiplist_first (sk1_sl s)) k 0)"

definition sk1_ns_insert_at :: "Skip1Store \<Rightarrow> int \<Rightarrow> key \<Rightarrow> ptr \<Rightarrow> error + Skip1Store" where
  "sk1_ns_insert_at s idx k v =
     (if \<not> skiplist_size (sk1_sl s) < sk1_cap s then Inl Capacity_assert
      else Inr (s\<lparr>sk1_sl := skiplist_insert2 (sk1_sl s) k v\<rparr>))"

definition sk1_ns_erase_at :: "Skip1Store \<Rightarrow> int \<Rightarrow> error + Skip1Store" where
  "sk1_ns_erase_at s idx =
     rbind (at_index s idx) (\<lambda>x.
     Inr (s\<lparr>sk1_sl := skiplist_erase2 (sk1_sl s) (skipnode_key x)\<rparr>))"

text \<open>
  \<open>ns_split\<close>: the walk \<open>while (x && idx < mid)\<close>, the loop that copies \<open>move\<close> entries
  into the buffers \<open>keys\<close> and \<open>vals\<close>, and the loop that inserts each of them into
  \<open>right\<close> and erases it from \<open>left\<close>.
\<close>

function sk1_split_walk :: "(key \<times> ptr) list \<Rightarrow> int \<Rightarrow> int \<Rightarrow> (key \<times> ptr) list" where
  "sk1_split_walk x idx mid =
     (if x \<noteq> [] \<and> idx < mid then sk1_split_walk (skipnode_next0 x) (idx + 1) mid else x)"
  by pat_completeness auto
termination
  by (relation "measure (\<lambda>(x, idx, mid). nat (mid - idx))") auto

declare sk1_split_walk.simps [simp del]

function sk1_collect :: "(key \<times> ptr) list \<Rightarrow> int \<Rightarrow> int \<Rightarrow> (key \<times> ptr) list" where
  "sk1_collect cur i move =
     (if i < move
      then (skipnode_key cur, skipnode_val cur) # sk1_collect (skipnode_next0 cur) (i + 1) move
      else [])"
  by pat_completeness auto
termination
  by (relation "measure (\<lambda>(cur, i, move). nat (move - i))") auto

declare sk1_collect.simps [simp del]

fun sk1_move :: "(key \<times> ptr) list \<Rightarrow> SkipList \<Rightarrow> SkipList \<Rightarrow> SkipList \<times> SkipList" where
  "sk1_move [] l r = (l, r)"
| "sk1_move ((k, v) # kvs) l r = sk1_move kvs (skiplist_erase2 l k) (skiplist_insert2 r k v)"

definition sk1_ns_split ::
  "Skip1Store \<Rightarrow> Skip1Store \<Rightarrow> error + (Skip1Store \<times> Skip1Store \<times> key)" where
  "sk1_ns_split left right =
     rbind (assert (skiplist_size (sk1_sl right) = 0)) (\<lambda>_.
     let n = skiplist_size (sk1_sl left);
         mid0 = n sdiv 2;
         mid = (if mid0 = 0 then 1 else mid0);
         x = sk1_split_walk (skiplist_first (sk1_sl left)) 0 mid in
     rbind (assert (x \<noteq> [])) (\<lambda>_.
     let sep = skipnode_key x;
         move = n - mid;
         kvs = sk1_collect x 0 move;
         (l2, r2) = sk1_move kvs (sk1_sl left) (sk1_sl right) in
     Inr (left\<lparr>sk1_sl := l2\<rparr>, right\<lparr>sk1_sl := r2\<rparr>, sep)))"

subsection \<open>The sorted arrays mirrored by a skip list\<close>

text \<open>
  \<open>struct NodeStore { int cap; int n; int* keys; void** vals; SkipList* sl; }\<close>: the
  fields of the array store and a skip list of the keys, rebuilt after every change.
  Its loops are those of \<open>nodestore_array.c\<close>.
\<close>

record SkipStore = ArrayStore +
  skp_sl :: "key list"

function skp_rebuild_loop :: "SkipStore \<Rightarrow> key list \<Rightarrow> int \<Rightarrow> error + key list" where
  "skp_rebuild_loop s sl i =
     (if i < arr_n s then
        rbind (cell_read (arr_keys s) i) (\<lambda>k. skp_rebuild_loop s (skiplist_insert sl k) (i + 1))
      else Inr sl)"
  by pat_completeness auto
termination
  by (relation "measure (\<lambda>(s, sl, i). nat (arr_n s - i))") auto

declare skp_rebuild_loop.simps [simp del]

definition rebuild_skiplist_from_keys :: "SkipStore \<Rightarrow> error + SkipStore" where
  "rebuild_skiplist_from_keys s =
     rbind (skp_rebuild_loop s [] 0) (\<lambda>sl. Inr (s\<lparr>skp_sl := sl\<rparr>))"

definition skp_ns_create :: "int \<Rightarrow> SkipStore option" where
  "skp_ns_create capacity0 =
     (let capacity = (if capacity0 \<le> 0 then 1 else capacity0) in
      Some \<lparr>arr_cap = capacity, arr_n = 0,
            arr_keys = replicate (nat capacity) None,
            arr_vals = replicate (nat capacity) None,
            skp_sl = []\<rparr>)"

definition skp_ns_clear :: "SkipStore \<Rightarrow> SkipStore" where
  "skp_ns_clear s = s\<lparr>arr_n := 0, skp_sl := []\<rparr>"

definition skp_ns_insert_at :: "SkipStore \<Rightarrow> int \<Rightarrow> key \<Rightarrow> ptr \<Rightarrow> error + SkipStore" where
  "skp_ns_insert_at s idx k v =
     (if \<not> arr_n s < arr_cap s then Inl Capacity_assert
      else
        rbind (assert (idx \<ge> 0 \<and> idx \<le> arr_n s)) (\<lambda>_.
        rbind (arr_ns_lower_bound s k) (\<lambda>lb.
        rbind (if lb < arr_n s then rbind (cell_read (arr_keys s) lb) (\<lambda>kl. Inr (kl = k))
               else Inr False) (\<lambda>dup.
        if dup then Inr s
        else
          rbind (arr_shift_up s (arr_n s) idx) (\<lambda>s1.
          rbind (cell_write (arr_keys s1) idx (Some k)) (\<lambda>ks.
          rbind (cell_write (arr_vals s1) idx (Some v)) (\<lambda>vs.
          rebuild_skiplist_from_keys
            (s1\<lparr>arr_keys := ks, arr_vals := vs, arr_n := arr_n s1 + 1\<rparr>))))))))"

definition skp_ns_erase_at :: "SkipStore \<Rightarrow> int \<Rightarrow> error + SkipStore" where
  "skp_ns_erase_at s idx =
     rbind (assert (idx \<ge> 0 \<and> idx < arr_n s)) (\<lambda>_.
     rbind (arr_shift_down s idx) (\<lambda>s1.
     rebuild_skiplist_from_keys (s1\<lparr>arr_n := arr_n s1 - 1\<rparr>)))"

definition skp_ns_split :: "SkipStore \<Rightarrow> SkipStore \<Rightarrow> error + (SkipStore \<times> SkipStore \<times> key)" where
  "skp_ns_split left right =
     rbind (assert (arr_n right = 0)) (\<lambda>_.
     let n = arr_n left;
         mid0 = n sdiv 2;
         mid = (if mid0 = 0 then 1 else mid0) in
     rbind (cell_read (arr_keys left) mid) (\<lambda>sep.
     let move = n - mid in
     rbind (assert (move \<ge> 1)) (\<lambda>_.
     rbind (arr_split_loop left right mid move 0) (\<lambda>r1.
     rbind (rebuild_skiplist_from_keys (left\<lparr>arr_n := mid\<rparr>)) (\<lambda>l2.
     rbind (rebuild_skiplist_from_keys (r1\<lparr>arr_n := move\<rparr>)) (\<lambda>r2.
     Inr (l2, r2, sep)))))))"

section \<open>nodestore.h and nodestore.c\<close>

text \<open>
  Each backend declares its own \<open>struct NodeStore\<close>; a \<open>NodeStore*\<close> is a store of one
  of them. A backend operation applied to the store of another backend is an error
  (\<open>Wrong_store\<close>). \<open>destroy\<close> frees the store and has no other effect: a store is
  released together with the node that owns it.
\<close>

datatype NodeStore =
    Array_store ArrayStore
  | List_store ListStore
  | Skip_store SkipStore
  | Skip1_store Skip1Store

record NodeStoreOps =
  op_create :: "int \<Rightarrow> NodeStore option"
  op_size :: "NodeStore \<Rightarrow> error + int"
  op_capacity :: "NodeStore \<Rightarrow> error + int"
  op_clear :: "NodeStore \<Rightarrow> error + NodeStore"
  op_key_at :: "NodeStore \<Rightarrow> int \<Rightarrow> error + key"
  op_val_at :: "NodeStore \<Rightarrow> int \<Rightarrow> error + ptr"
  op_set_val :: "NodeStore \<Rightarrow> int \<Rightarrow> ptr \<Rightarrow> error + NodeStore"
  op_lower_bound :: "NodeStore \<Rightarrow> key \<Rightarrow> error + int"
  op_insert_at :: "NodeStore \<Rightarrow> int \<Rightarrow> key \<Rightarrow> ptr \<Rightarrow> error + NodeStore"
  op_erase_at :: "NodeStore \<Rightarrow> int \<Rightarrow> error + NodeStore"
  op_split :: "NodeStore \<Rightarrow> NodeStore \<Rightarrow> error + (NodeStore \<times> NodeStore \<times> key)"

definition as_array :: "NodeStore \<Rightarrow> error + ArrayStore" where
  "as_array s = (case s of Array_store a \<Rightarrow> Inr a | _ \<Rightarrow> Inl Wrong_store)"

definition as_list :: "NodeStore \<Rightarrow> error + ListStore" where
  "as_list s = (case s of List_store a \<Rightarrow> Inr a | _ \<Rightarrow> Inl Wrong_store)"

definition as_skip :: "NodeStore \<Rightarrow> error + SkipStore" where
  "as_skip s = (case s of Skip_store a \<Rightarrow> Inr a | _ \<Rightarrow> Inl Wrong_store)"

definition as_skip1 :: "NodeStore \<Rightarrow> error + Skip1Store" where
  "as_skip1 s = (case s of Skip1_store a \<Rightarrow> Inr a | _ \<Rightarrow> Inl Wrong_store)"

definition split_result ::
  "('s \<Rightarrow> NodeStore) \<Rightarrow> error + ('s \<times> 's \<times> key) \<Rightarrow> error + (NodeStore \<times> NodeStore \<times> key)" where
  "split_result c r = rbind r (\<lambda>(l, r, k). Inr (c l, c r, k))"

definition nodestore_array_ops :: NodeStoreOps where
  "nodestore_array_ops =
     \<lparr>op_create = (\<lambda>c. map_option Array_store (arr_ns_create c)),
      op_size = (\<lambda>s. rbind (as_array s) (\<lambda>a. Inr (arr_ns_size a))),
      op_capacity = (\<lambda>s. rbind (as_array s) (\<lambda>a. Inr (arr_ns_capacity a))),
      op_clear = (\<lambda>s. rbind (as_array s) (\<lambda>a. Inr (Array_store (arr_ns_clear a)))),
      op_key_at = (\<lambda>s i. rbind (as_array s) (\<lambda>a. arr_ns_key_at a i)),
      op_val_at = (\<lambda>s i. rbind (as_array s) (\<lambda>a. arr_ns_val_at a i)),
      op_set_val = (\<lambda>s i v. rbind (as_array s) (\<lambda>a.
                      rbind (arr_ns_set_val a i v) (\<lambda>a'. Inr (Array_store a')))),
      op_lower_bound = (\<lambda>s k. rbind (as_array s) (\<lambda>a. arr_ns_lower_bound a k)),
      op_insert_at = (\<lambda>s i k v. rbind (as_array s) (\<lambda>a.
                        rbind (arr_ns_insert_at a i k v) (\<lambda>a'. Inr (Array_store a')))),
      op_erase_at = (\<lambda>s i. rbind (as_array s) (\<lambda>a.
                       rbind (arr_ns_erase_at a i) (\<lambda>a'. Inr (Array_store a')))),
      op_split = (\<lambda>l r. rbind (as_array l) (\<lambda>a. rbind (as_array r) (\<lambda>b.
                    split_result Array_store (arr_ns_split a b))))\<rparr>"

definition nodestore_list_ops :: NodeStoreOps where
  "nodestore_list_ops =
     \<lparr>op_create = (\<lambda>c. map_option List_store (lst_ns_create c)),
      op_size = (\<lambda>s. rbind (as_list s) (\<lambda>a. Inr (lst_ns_size a))),
      op_capacity = (\<lambda>s. rbind (as_list s) (\<lambda>a. Inr (lst_ns_capacity a))),
      op_clear = (\<lambda>s. rbind (as_list s) (\<lambda>a. Inr (List_store (lst_ns_clear a)))),
      op_key_at = (\<lambda>s i. rbind (as_list s) (\<lambda>a. lst_ns_key_at a i)),
      op_val_at = (\<lambda>s i. rbind (as_list s) (\<lambda>a. lst_ns_val_at a i)),
      op_set_val = (\<lambda>s i v. rbind (as_list s) (\<lambda>a.
                      rbind (lst_ns_set_val a i v) (\<lambda>a'. Inr (List_store a')))),
      op_lower_bound = (\<lambda>s k. rbind (as_list s) (\<lambda>a. lst_ns_lower_bound a k)),
      op_insert_at = (\<lambda>s i k v. rbind (as_list s) (\<lambda>a.
                        rbind (lst_ns_insert_at a i k v) (\<lambda>a'. Inr (List_store a')))),
      op_erase_at = (\<lambda>s i. rbind (as_list s) (\<lambda>a.
                       rbind (lst_ns_erase_at a i) (\<lambda>a'. Inr (List_store a')))),
      op_split = (\<lambda>l r. rbind (as_list l) (\<lambda>a. rbind (as_list r) (\<lambda>b.
                    split_result List_store (lst_ns_split a b))))\<rparr>"

text \<open>The operations table of the store that mirrors its arrays in a skip list.\<close>

definition nodestore_skip_ops :: NodeStoreOps where
  "nodestore_skip_ops =
     \<lparr>op_create = (\<lambda>c. map_option Skip_store (skp_ns_create c)),
      op_size = (\<lambda>s. rbind (as_skip s) (\<lambda>a. Inr (arr_ns_size a))),
      op_capacity = (\<lambda>s. rbind (as_skip s) (\<lambda>a. Inr (arr_ns_capacity a))),
      op_clear = (\<lambda>s. rbind (as_skip s) (\<lambda>a. Inr (Skip_store (skp_ns_clear a)))),
      op_key_at = (\<lambda>s i. rbind (as_skip s) (\<lambda>a. arr_ns_key_at a i)),
      op_val_at = (\<lambda>s i. rbind (as_skip s) (\<lambda>a. arr_ns_val_at a i)),
      op_set_val = (\<lambda>s i v. rbind (as_skip s) (\<lambda>a.
                      rbind (arr_ns_set_val a i v) (\<lambda>a'. Inr (Skip_store a')))),
      op_lower_bound = (\<lambda>s k. rbind (as_skip s) (\<lambda>a. arr_ns_lower_bound a k)),
      op_insert_at = (\<lambda>s i k v. rbind (as_skip s) (\<lambda>a.
                        rbind (skp_ns_insert_at a i k v) (\<lambda>a'. Inr (Skip_store a')))),
      op_erase_at = (\<lambda>s i. rbind (as_skip s) (\<lambda>a.
                       rbind (skp_ns_erase_at a i) (\<lambda>a'. Inr (Skip_store a')))),
      op_split = (\<lambda>l r. rbind (as_skip l) (\<lambda>a. rbind (as_skip r) (\<lambda>b.
                    split_result Skip_store (skp_ns_split a b))))\<rparr>"

text \<open>The operations table of the store that is a skip list.\<close>

definition nodestore_skip1_ops :: NodeStoreOps where
  "nodestore_skip1_ops =
     \<lparr>op_create = (\<lambda>c. map_option Skip1_store (sk1_ns_create c)),
      op_size = (\<lambda>s. rbind (as_skip1 s) (\<lambda>a. Inr (sk1_ns_size a))),
      op_capacity = (\<lambda>s. rbind (as_skip1 s) (\<lambda>a. Inr (sk1_ns_capacity a))),
      op_clear = (\<lambda>s. rbind (as_skip1 s) (\<lambda>a. Inr (Skip1_store (sk1_ns_clear a)))),
      op_key_at = (\<lambda>s i. rbind (as_skip1 s) (\<lambda>a. sk1_ns_key_at a i)),
      op_val_at = (\<lambda>s i. rbind (as_skip1 s) (\<lambda>a. sk1_ns_val_at a i)),
      op_set_val = (\<lambda>s i v. rbind (as_skip1 s) (\<lambda>a.
                      rbind (sk1_ns_set_val a i v) (\<lambda>a'. Inr (Skip1_store a')))),
      op_lower_bound = (\<lambda>s k. rbind (as_skip1 s) (\<lambda>a. sk1_ns_lower_bound a k)),
      op_insert_at = (\<lambda>s i k v. rbind (as_skip1 s) (\<lambda>a.
                        rbind (sk1_ns_insert_at a i k v) (\<lambda>a'. Inr (Skip1_store a')))),
      op_erase_at = (\<lambda>s i. rbind (as_skip1 s) (\<lambda>a.
                       rbind (sk1_ns_erase_at a i) (\<lambda>a'. Inr (Skip1_store a')))),
      op_split = (\<lambda>l r. rbind (as_skip1 l) (\<lambda>a. rbind (as_skip1 r) (\<lambda>b.
                    split_result Skip1_store (sk1_ns_split a b))))\<rparr>"

text \<open>\<open>enum NodeStoreKind\<close> and the \<open>switch\<close> of \<open>nodestore_get_ops\<close>.\<close>

definition NODESTORE_ARRAY :: int where "NODESTORE_ARRAY = 1"
definition NODESTORE_LINKED :: int where "NODESTORE_LINKED = 2"
definition NODESTORE_SKIPLIST :: int where "NODESTORE_SKIPLIST = 3"

definition nodestore_get_ops :: "int \<Rightarrow> NodeStoreOps option" where
  "nodestore_get_ops kind =
     (if kind = NODESTORE_ARRAY then Some nodestore_array_ops
      else if kind = NODESTORE_LINKED then Some nodestore_list_ops
      else if kind = NODESTORE_SKIPLIST then Some nodestore_skip_ops
      else None)"

section \<open>The tree: declarations shared by both versions of bptree.c\<close>

text \<open>
  \<open>struct BPTreeNode\<close> and \<open>struct BPTree\<close>. The nodes that \<open>calloc\<close> has handed out
  are the cells of \<open>nodes\<close>: the node at address \<open>a\<close> is \<open>nodes ! a\<close>, a freed node
  is \<open>None\<close>, and an allocation appends a cell. \<open>is_leaf\<close> is the C \<open>int\<close> used as a
  truth value; the field \<open>next\<close> is written \<open>nxt\<close>.
\<close>

record BPTreeNode =
  is_leaf :: int
  node_max_keys :: int
  parent :: ptr
  nxt :: ptr
  child0 :: ptr
  store :: NodeStore

record BPTree =
  order_M :: int
  max_keys :: int
  ops :: NodeStoreOps
  root :: ptr
  nodes :: "BPTreeNode option list"

definition deref :: "BPTree \<Rightarrow> ptr \<Rightarrow> error + BPTreeNode" where
  "deref t p =
     (case p of
        None \<Rightarrow> Inl Null_deref
      | Some a \<Rightarrow>
          if a < length (nodes t)
          then (case nodes t ! a of None \<Rightarrow> Inl Null_deref | Some x \<Rightarrow> Inr x)
          else Inl Null_deref)"

definition upd_node :: "BPTree \<Rightarrow> ptr \<Rightarrow> (BPTreeNode \<Rightarrow> BPTreeNode) \<Rightarrow> error + BPTree" where
  "upd_node t p f =
     rbind (deref t p) (\<lambda>x. Inr (t\<lparr>nodes := (nodes t)[the p := Some (f x)]\<rparr>))"

definition upd_store ::
  "BPTree \<Rightarrow> ptr \<Rightarrow> (NodeStore \<Rightarrow> error + NodeStore) \<Rightarrow> error + BPTree" where
  "upd_store t p f =
     rbind (deref t p) (\<lambda>x.
     rbind (f (store x)) (\<lambda>s.
     Inr (t\<lparr>nodes := (nodes t)[the p := Some (x\<lparr>store := s\<rparr>)]\<rparr>)))"

text \<open>\<open>if (c) c->parent = x;\<close>\<close>

definition set_parent_if :: "BPTree \<Rightarrow> ptr \<Rightarrow> ptr \<Rightarrow> error + BPTree" where
  "set_parent_if t c x =
     (case c of None \<Rightarrow> Inr t | Some _ \<Rightarrow> upd_node t c (\<lambda>n. n\<lparr>parent := x\<rparr>))"

text \<open>
  A \<open>for\<close> loop whose bounds do not change runs its body over the list of its indices;
  a buffer filled by such a loop is the list of the values read.
\<close>

fun rfold :: "('a \<Rightarrow> 's \<Rightarrow> error + 's) \<Rightarrow> 'a list \<Rightarrow> 's \<Rightarrow> error + 's" where
  "rfold f [] s = Inr s"
| "rfold f (x # xs) s = rbind (f x s) (rfold f xs)"

fun rmap :: "('a \<Rightarrow> error + 'b) \<Rightarrow> 'a list \<Rightarrow> error + 'b list" where
  "rmap f [] = Inr []"
| "rmap f (x # xs) = rbind (f x) (\<lambda>y. rbind (rmap f xs) (\<lambda>ys. Inr (y # ys)))"

definition buf_get :: "'a list \<Rightarrow> int \<Rightarrow> error + 'a" where
  "buf_get xs i =
     (if 0 \<le> i \<and> i < int (length xs) then Inr (xs ! nat i) else Inl Out_of_bounds)"

definition node_create :: "BPTree \<Rightarrow> int \<Rightarrow> error + (BPTree \<times> ptr)" where
  "node_create t lf =
     (case op_create (ops t) (max_keys t + 1) of
        None \<Rightarrow> Inl Assert_failed
      | Some s \<Rightarrow>
          Inr (t\<lparr>nodes := nodes t @
                   [Some \<lparr>is_leaf = lf, node_max_keys = max_keys t, parent = None,
                          nxt = None, child0 = None, store = s\<rparr>]\<rparr>,
               Some (length (nodes t))))"

definition node_destroy :: "BPTree \<Rightarrow> ptr \<Rightarrow> error + BPTree" where
  "node_destroy t x =
     (case x of
        None \<Rightarrow> Inr t
      | Some a \<Rightarrow> rbind (deref t x) (\<lambda>_. Inr (t\<lparr>nodes := (nodes t)[a := None]\<rparr>)))"

definition node_keys :: "BPTree \<Rightarrow> BPTreeNode \<Rightarrow> error + int" where
  "node_keys t x = op_size (ops t) (store x)"

definition node_overflow :: "BPTree \<Rightarrow> BPTreeNode \<Rightarrow> error + bool" where
  "node_overflow t x = rbind (node_keys t x) (\<lambda>n. Inr (n > node_max_keys x))"

text \<open>\<open>leaf_find\<close> returns its result together with the index written to \<open>*out_idx\<close>.\<close>

definition leaf_find :: "BPTree \<Rightarrow> BPTreeNode \<Rightarrow> key \<Rightarrow> error + (int \<times> int)" where
  "leaf_find t leaf k =
     rbind (op_size (ops t) (store leaf)) (\<lambda>n.
     rbind (op_lower_bound (ops t) (store leaf) k) (\<lambda>idx.
     if idx < n then
       rbind (op_key_at (ops t) (store leaf) idx) (\<lambda>kk.
       if kk = k then Inr (1, idx) else Inr (0, idx))
     else Inr (0, idx)))"

text \<open>
  \<open>split_leaf\<close> up to its last statement, the call of \<open>insert_into_parent\<close>: the result
  is the tree, the separator \<open>sep\<close> and the new leaf \<open>right\<close>.
\<close>

definition split_leaf_nodes :: "BPTree \<Rightarrow> ptr \<Rightarrow> error + (BPTree \<times> key \<times> ptr)" where
  "split_leaf_nodes t leaf =
     rbind (deref t leaf) (\<lambda>lf.
     rbind (op_size (ops t) (store lf)) (\<lambda>total.
     rbind (assert (total = max_keys t + 1)) (\<lambda>_.
     let left_sz = (total + 1) sdiv 2; right_sz = total - left_sz in
     rbind (rmap (\<lambda>i. op_key_at (ops t) (store lf) i) [0..total - 1]) (\<lambda>keys.
     rbind (node_create t 1) (\<lambda>(t1, right).
     rbind (upd_node t1 right (\<lambda>r. r\<lparr>parent := parent lf\<rparr>)) (\<lambda>t2.
     rbind (upd_store t2 leaf (op_clear (ops t))) (\<lambda>t3.
     rbind (upd_store t3 right (op_clear (ops t))) (\<lambda>t4.
     rbind (rfold (\<lambda>i tt. rbind (buf_get keys i) (\<lambda>k.
              upd_store tt leaf (\<lambda>s. op_insert_at (ops t) s i k None)))
              [0..left_sz - 1] t4) (\<lambda>t5.
     rbind (rfold (\<lambda>i tt. rbind (buf_get keys (left_sz + i)) (\<lambda>k.
              upd_store tt right (\<lambda>s. op_insert_at (ops t) s i k None)))
              [0..right_sz - 1] t5) (\<lambda>t6.
     rbind (deref t6 leaf) (\<lambda>lf6.
     rbind (upd_node t6 right (\<lambda>r. r\<lparr>nxt := nxt lf6\<rparr>)) (\<lambda>t7.
     rbind (upd_node t7 leaf (\<lambda>l. l\<lparr>nxt := right\<rparr>)) (\<lambda>t8.
     rbind (deref t8 right) (\<lambda>r8.
     rbind (op_key_at (ops t) (store r8) 0) (\<lambda>sep.
     Inr (t8, sep, right))))))))))))))))"

text \<open>
  \<open>insert_into_parent\<close> when \<open>left\<close> has no parent: a new internal root over \<open>left\<close>
  and \<open>right\<close>.
\<close>

definition new_root :: "BPTree \<Rightarrow> ptr \<Rightarrow> key \<Rightarrow> ptr \<Rightarrow> error + BPTree" where
  "new_root t left sep_key right =
     rbind (node_create t 0) (\<lambda>(t1, rt).
     rbind (upd_node t1 rt (\<lambda>r. r\<lparr>child0 := left\<rparr>)) (\<lambda>t2.
     rbind (upd_node t2 left (\<lambda>l. l\<lparr>parent := rt\<rparr>)) (\<lambda>t3.
     rbind (upd_store t3 rt (\<lambda>s. op_insert_at (ops t) s 0 sep_key right)) (\<lambda>t4.
     rbind (upd_node t4 right (\<lambda>r. r\<lparr>parent := rt\<rparr>)) (\<lambda>t5.
     Inr (t5\<lparr>root := rt\<rparr>))))))"

text \<open>
  The search of \<open>left\<close> among the value slots of \<open>parent\<close>:
  \<open>for (i = 0; i < n; ++i) if (val_at(parent->store, i) == left) ...\<close>, leaving the loop
  at the first hit with \<open>i + 1\<close> and giving \<open>-1\<close> when there is none.
\<close>

fun child_index_loop :: "NodeStoreOps \<Rightarrow> NodeStore \<Rightarrow> ptr \<Rightarrow> int list \<Rightarrow> error + int" where
  "child_index_loop ot s c [] = Inr (- 1)"
| "child_index_loop ot s c (i # rest) =
     rbind (op_val_at ot s i) (\<lambda>v. if v = c then Inr (i + 1) else child_index_loop ot s c rest)"

text \<open>\<open>bptree_create\<close>, \<open>bptree_height\<close> and the traversal of \<open>bptree_destroy\<close>.\<close>

definition bptree_create :: "int \<Rightarrow> NodeStoreOps option \<Rightarrow> error + BPTree" where
  "bptree_create order_M0 ops0 =
     (let order = (if order_M0 < 3 then 3 else order_M0);
          ops1 = (case ops0 of None \<Rightarrow> nodestore_get_ops NODESTORE_ARRAY | Some ot \<Rightarrow> Some ot) in
      case ops1 of
        None \<Rightarrow> Inl Null_deref
      | Some ot \<Rightarrow>
          rbind (node_create \<lparr>order_M = order, max_keys = order - 1, ops = ot, root = None,
                              nodes = []\<rparr> 1) (\<lambda>(t1, r).
          Inr (t1\<lparr>root := r\<rparr>)))"

fun height_loop :: "nat \<Rightarrow> BPTree \<Rightarrow> int \<Rightarrow> ptr \<Rightarrow> error + int" where
  "height_loop 0 t h x = Inl Diverges"
| "height_loop (Suc f) t h x =
     (case x of
        None \<Rightarrow> Inr h
      | Some _ \<Rightarrow>
          rbind (deref t x) (\<lambda>nd.
          if is_leaf nd \<noteq> 0 then Inr h else height_loop f t (h + 1) (child0 nd)))"

definition bptree_height :: "BPTree option \<Rightarrow> error + int" where
  "bptree_height th =
     (case th of
        None \<Rightarrow> Inr 0
      | Some t \<Rightarrow>
          if root t = None then Inr 0
          else height_loop (Suc (length (nodes t))) t 1 (root t))"

fun destroy_subtree :: "nat \<Rightarrow> BPTree \<Rightarrow> ptr \<Rightarrow> error + BPTree" where
  "destroy_subtree 0 t x = Inl Diverges"
| "destroy_subtree (Suc f) t x =
     (case x of
        None \<Rightarrow> Inr t
      | Some _ \<Rightarrow>
          rbind (deref t x) (\<lambda>nd.
          rbind (if is_leaf nd \<noteq> 0 then Inr t
                 else
                   rbind (op_size (ops t) (store nd)) (\<lambda>n.
                   rbind (destroy_subtree f t (child0 nd)) (\<lambda>t1.
                   rfold (\<lambda>i tt. rbind (op_val_at (ops t) (store nd) i) (\<lambda>c.
                            destroy_subtree f tt c)) [0..n - 1] t1))) (\<lambda>t2.
          node_destroy t2 x)))"

definition bptree_destroy :: "BPTree option \<Rightarrow> error + BPTree option" where
  "bptree_destroy th =
     (case th of
        None \<Rightarrow> Inr None
      | Some t \<Rightarrow> rbind (destroy_subtree (Suc (length (nodes t))) t (root t)) (\<lambda>_. Inr None))"

text \<open>
  The loop that shrinks the root,
  \<open>while (t->root && !t->root->is_leaf && size(t->root->store) == 0)\<close>: the body of
  \<open>fix_root_after_delete\<close> in one version and the end of \<open>bptree_delete\<close> in the
  other. Like every loop that follows pointers it is given as many steps as there are
  allocated nodes, plus one; a walk that needs more has met a node twice.
\<close>

fun fix_root_loop :: "nat \<Rightarrow> BPTree \<Rightarrow> error + BPTree" where
  "fix_root_loop 0 t = Inl Diverges"
| "fix_root_loop (Suc f) t =
     (case root t of
        None \<Rightarrow> Inr t
      | Some _ \<Rightarrow>
          rbind (deref t (root t)) (\<lambda>r.
          if is_leaf r \<noteq> 0 then Inr t
          else
            rbind (op_size (ops t) (store r)) (\<lambda>n.
            if n = 0 then
              (let old = root t; nr = child0 r in
               rbind (set_parent_if t nr None) (\<lambda>t1.
               rbind (node_destroy (t1\<lparr>root := nr\<rparr>) old) (\<lambda>t2.
               fix_root_loop f t2)))
            else Inr t)))"

definition fix_root_after_delete :: "BPTree \<Rightarrow> error + BPTree" where
  "fix_root_after_delete t = fix_root_loop (Suc (length (nodes t))) t"

section \<open>src/code/bptree.c\<close>

text \<open>
  The functions of this version that differ from the other one carry the suffix
  \<open>_code\<close>, after the directory of the file.
\<close>

fun find_leaf_loop_code :: "nat \<Rightarrow> BPTree \<Rightarrow> key \<Rightarrow> ptr \<Rightarrow> error + ptr" where
  "find_leaf_loop_code 0 t k x = Inl Diverges"
| "find_leaf_loop_code (Suc f) t k x =
     (case x of
        None \<Rightarrow> Inr None
      | Some _ \<Rightarrow>
          rbind (deref t x) (\<lambda>nd.
          if is_leaf nd \<noteq> 0 then Inr x
          else
            rbind (op_size (ops t) (store nd)) (\<lambda>n.
            rbind (op_lower_bound (ops t) (store nd) k) (\<lambda>idx.
            if idx = 0 then find_leaf_loop_code f t k (child0 nd)
            else
              rbind (op_val_at (ops t) (store nd) (idx - 1)) (\<lambda>v.
              find_leaf_loop_code f t k v)))))"

definition find_leaf_code :: "BPTree \<Rightarrow> key \<Rightarrow> error + ptr" where
  "find_leaf_code t k = find_leaf_loop_code (Suc (length (nodes t))) t k (root t)"

text \<open>
  \<open>split_internal\<close> up to its last statement: the key at \<open>mid = k / 2\<close> moves up and is
  kept in neither half.
\<close>

definition split_internal_nodes_code :: "BPTree \<Rightarrow> ptr \<Rightarrow> error + (BPTree \<times> key \<times> ptr)" where
  "split_internal_nodes_code t x =
     rbind (deref t x) (\<lambda>xn.
     rbind (op_size (ops t) (store xn)) (\<lambda>k.
     rbind (assert (k = max_keys t + 1)) (\<lambda>_.
     rbind (rmap (\<lambda>i. op_key_at (ops t) (store xn) i) [0..k - 1]) (\<lambda>keys.
     rbind (rmap (\<lambda>i. op_val_at (ops t) (store xn) i) [0..k - 1]) (\<lambda>vs.
     let ch = child0 xn # vs; mid = k sdiv 2 in
     rbind (buf_get keys mid) (\<lambda>up_key.
     rbind (node_create t 0) (\<lambda>(t1, right).
     rbind (upd_node t1 right (\<lambda>r. r\<lparr>parent := parent xn\<rparr>)) (\<lambda>t2.
     rbind (upd_store t2 x (op_clear (ops t))) (\<lambda>t3.
     rbind (buf_get ch 0) (\<lambda>c0.
     rbind (upd_node t3 x (\<lambda>n. n\<lparr>child0 := c0\<rparr>)) (\<lambda>t4.
     rbind (set_parent_if t4 c0 x) (\<lambda>t5.
     rbind (rfold (\<lambda>i tt.
              rbind (buf_get keys i) (\<lambda>ki.
              rbind (buf_get ch (i + 1)) (\<lambda>ci.
              rbind (upd_store tt x (\<lambda>s. op_insert_at (ops t) s i ki ci)) (\<lambda>tt1.
              set_parent_if tt1 ci x)))) [0..mid - 1] t5) (\<lambda>t6.
     let rkeys = k - mid - 1 in
     rbind (buf_get ch (mid + 1)) (\<lambda>rc0.
     rbind (upd_node t6 right (\<lambda>r. r\<lparr>child0 := rc0\<rparr>)) (\<lambda>t7.
     rbind (set_parent_if t7 rc0 right) (\<lambda>t8.
     rbind (rfold (\<lambda>i tt.
              rbind (buf_get keys (mid + 1 + i)) (\<lambda>kk.
              rbind (buf_get ch (mid + 2 + i)) (\<lambda>cr.
              rbind (upd_store tt right (\<lambda>s. op_insert_at (ops t) s i kk cr)) (\<lambda>tt1.
              set_parent_if tt1 cr right)))) [0..rkeys - 1] t8) (\<lambda>t9.
     Inr (t9, up_key, right))))))))))))))))))"

fun insert_into_parent_code :: "nat \<Rightarrow> BPTree \<Rightarrow> ptr \<Rightarrow> key \<Rightarrow> ptr \<Rightarrow> error + BPTree" where
  "insert_into_parent_code 0 t left sep_key right = Inl Diverges"
| "insert_into_parent_code (Suc f) t left sep_key right =
     rbind (deref t left) (\<lambda>l.
     let par = parent l in
     if par = None then new_root t left sep_key right
     else
       rbind (deref t par) (\<lambda>p.
       rbind (op_size (ops t) (store p)) (\<lambda>n.
       rbind (if child0 p = left then Inr 0
              else child_index_loop (ops t) (store p) left [0..n - 1]) (\<lambda>pos.
       rbind (assert (pos \<ge> 0 \<and> pos \<le> n)) (\<lambda>_.
       rbind (upd_store t par (\<lambda>s. op_insert_at (ops t) s pos sep_key right)) (\<lambda>t1.
       rbind (upd_node t1 right (\<lambda>r. r\<lparr>parent := par\<rparr>)) (\<lambda>t2.
       rbind (deref t2 par) (\<lambda>p2.
       rbind (node_overflow t2 p2) (\<lambda>ov.
       if ov then
         rbind (split_internal_nodes_code t2 par) (\<lambda>(t3, up_key, r).
         insert_into_parent_code f t3 par up_key r)
       else Inr t2)))))))))"

definition split_internal_code :: "nat \<Rightarrow> BPTree \<Rightarrow> ptr \<Rightarrow> error + BPTree" where
  "split_internal_code f t x =
     rbind (split_internal_nodes_code t x) (\<lambda>(t1, up_key, right).
     insert_into_parent_code f t1 x up_key right)"

definition split_leaf_code :: "nat \<Rightarrow> BPTree \<Rightarrow> ptr \<Rightarrow> error + BPTree" where
  "split_leaf_code f t leaf =
     rbind (split_leaf_nodes t leaf) (\<lambda>(t1, sep, right).
     insert_into_parent_code f t1 leaf sep right)"

definition bptree_search_code :: "BPTree option \<Rightarrow> key \<Rightarrow> error + int" where
  "bptree_search_code th k =
     (case th of
        None \<Rightarrow> Inr 0
      | Some t \<Rightarrow>
          if root t = None then Inr 0
          else
            rbind (find_leaf_code t k) (\<lambda>leaf.
            if leaf = None then Inr 0
            else
              rbind (deref t leaf) (\<lambda>lf.
              rbind (leaf_find t lf k) (\<lambda>(found, idx). Inr found))))"

definition bptree_insert_code :: "BPTree option \<Rightarrow> key \<Rightarrow> error + BPTree option" where
  "bptree_insert_code th k =
     (case th of
        None \<Rightarrow> Inr None
      | Some t \<Rightarrow>
          if root t = None then Inr (Some t)
          else
            rbind (find_leaf_code t k) (\<lambda>leaf.
            rbind (assert (leaf \<noteq> None)) (\<lambda>_.
            rbind (deref t leaf) (\<lambda>lf.
            rbind (leaf_find t lf k) (\<lambda>(found, idx).
            if found \<noteq> 0 then Inr (Some t)
            else
              rbind (upd_store t leaf (\<lambda>s. op_insert_at (ops t) s idx k None)) (\<lambda>t1.
              rbind (deref t1 leaf) (\<lambda>lf1.
              rbind (node_overflow t1 lf1) (\<lambda>ov.
              if ov then
                rbind (split_leaf_code (Suc (length (nodes t1))) t1 leaf) (\<lambda>t2. Inr (Some t2))
              else Inr (Some t1)))))))))"

definition bptree_delete_code :: "BPTree option \<Rightarrow> key \<Rightarrow> error + BPTree option" where
  "bptree_delete_code th k =
     (case th of
        None \<Rightarrow> Inr None
      | Some t \<Rightarrow>
          if root t = None then Inr (Some t)
          else
            rbind (find_leaf_code t k) (\<lambda>leaf.
            if leaf = None then Inr (Some t)
            else
              rbind (deref t leaf) (\<lambda>lf.
              rbind (leaf_find t lf k) (\<lambda>(found, idx).
              if found = 0 then Inr (Some t)
              else
                rbind (upd_store t leaf (\<lambda>s. op_erase_at (ops t) s idx)) (\<lambda>t1.
                rbind (fix_root_loop (Suc (length (nodes t1))) t1) (\<lambda>t2.
                Inr (Some t2)))))))"

section \<open>bptree.c, scheme A: parent key[i] = min(child[i+1])\<close>

definition min_leaf_keys :: "BPTree \<Rightarrow> int" where
  "min_leaf_keys t = (max_keys t + 1) sdiv 2"

definition min_internal_keys :: "BPTree \<Rightarrow> int" where
  "min_internal_keys t = (let min_children = (order_M t + 1) sdiv 2 in min_children - 1)"

text \<open>\<open>store_set_key\<close> works on the store in place; here it returns the store and its result.\<close>

definition store_set_key :: "BPTree \<Rightarrow> NodeStore \<Rightarrow> int \<Rightarrow> key \<Rightarrow> error + (NodeStore \<times> int)" where
  "store_set_key t s idx new_key =
     rbind (op_size (ops t) s) (\<lambda>n.
     if idx < 0 \<or> idx \<ge> n then Inr (s, 0)
     else
       rbind (op_val_at (ops t) s idx) (\<lambda>v.
       rbind (op_erase_at (ops t) s idx) (\<lambda>s1.
       rbind (op_insert_at (ops t) s1 idx new_key v) (\<lambda>s2.
       Inr (s2, 1)))))"

text \<open>A call \<open>store_set_key(t, p->store, idx, k)\<close> whose result is dropped.\<close>

definition set_key_of :: "BPTree \<Rightarrow> ptr \<Rightarrow> int \<Rightarrow> key \<Rightarrow> error + BPTree" where
  "set_key_of t p idx new_key =
     upd_store t p (\<lambda>s. rbind (store_set_key t s idx new_key) (\<lambda>(s1, _). Inr s1))"

definition parent_child_at :: "BPTree \<Rightarrow> ptr \<Rightarrow> int \<Rightarrow> error + ptr" where
  "parent_child_at t par child_index =
     rbind (deref t par) (\<lambda>p.
     if child_index = 0 then Inr (child0 p)
     else op_val_at (ops t) (store p) (child_index - 1))"

definition parent_child_index :: "BPTree \<Rightarrow> ptr \<Rightarrow> ptr \<Rightarrow> error + int" where
  "parent_child_index t par child =
     rbind (deref t par) (\<lambda>p.
     if child0 p = child then Inr 0
     else
       rbind (op_size (ops t) (store p)) (\<lambda>n.
       child_index_loop (ops t) (store p) child [0..n - 1]))"

text \<open>\<open>while (cur && !cur->is_leaf) cur = cur->child0;\<close>\<close>

fun first_leaf_loop :: "nat \<Rightarrow> BPTree \<Rightarrow> ptr \<Rightarrow> error + ptr" where
  "first_leaf_loop 0 t cur = Inl Diverges"
| "first_leaf_loop (Suc f) t cur =
     (case cur of
        None \<Rightarrow> Inr None
      | Some _ \<Rightarrow>
          rbind (deref t cur) (\<lambda>c.
          if is_leaf c \<noteq> 0 then Inr cur else first_leaf_loop f t (child0 c)))"

definition subtree_first_key :: "BPTree \<Rightarrow> ptr \<Rightarrow> error + key" where
  "subtree_first_key t x =
     rbind (first_leaf_loop (Suc (length (nodes t))) t x) (\<lambda>cur.
     rbind (assert (cur \<noteq> None)) (\<lambda>_.
     rbind (deref t cur) (\<lambda>c.
     rbind (op_size (ops t) (store c)) (\<lambda>n.
     rbind (assert (n > 0)) (\<lambda>_.
     op_key_at (ops t) (store c) 0)))))"

definition update_parent_sep_if_needed :: "BPTree \<Rightarrow> ptr \<Rightarrow> error + BPTree" where
  "update_parent_sep_if_needed t x =
     (if x = None then Inr t
      else
        rbind (deref t x) (\<lambda>xn.
        if parent xn = None then Inr t
        else
          rbind (if is_leaf xn \<noteq> 0 then
                   rbind (op_size (ops t) (store xn)) (\<lambda>n.
                   if n \<le> 0 then Inr None
                   else rbind (op_key_at (ops t) (store xn) 0) (\<lambda>k. Inr (Some k)))
                 else rbind (subtree_first_key t x) (\<lambda>k. Inr (Some k))) (\<lambda>nmin_opt.
          case nmin_opt of
            None \<Rightarrow> Inr t
          | Some nmin \<Rightarrow>
              (let p = parent xn in
               rbind (parent_child_index t p x) (\<lambda>idx.
               if idx > 0 then set_key_of t p (idx - 1) nmin else Inr t)))))"

text \<open>The descent with upper-bound semantics: a key equal to a separator goes right.\<close>

fun find_leaf_loop :: "nat \<Rightarrow> BPTree \<Rightarrow> key \<Rightarrow> ptr \<Rightarrow> error + ptr" where
  "find_leaf_loop 0 t k x = Inl Diverges"
| "find_leaf_loop (Suc f) t k x =
     (case x of
        None \<Rightarrow> Inr None
      | Some _ \<Rightarrow>
          rbind (deref t x) (\<lambda>nd.
          if is_leaf nd \<noteq> 0 then Inr x
          else
            rbind (op_size (ops t) (store nd)) (\<lambda>n.
            rbind (op_lower_bound (ops t) (store nd) k) (\<lambda>idx0.
            rbind (if idx0 < n then
                     rbind (op_key_at (ops t) (store nd) idx0) (\<lambda>kk.
                     Inr (if kk = k then idx0 + 1 else idx0))
                   else Inr idx0) (\<lambda>idx.
            if idx = 0 then find_leaf_loop f t k (child0 nd)
            else
              rbind (op_val_at (ops t) (store nd) (idx - 1)) (\<lambda>v.
              find_leaf_loop f t k v))))))"

definition find_leaf :: "BPTree \<Rightarrow> key \<Rightarrow> error + ptr" where
  "find_leaf t k = find_leaf_loop (Suc (length (nodes t))) t k (root t)"

text \<open>
  \<open>split_internal\<close> up to its last statement: the left node keeps
  \<open>left_children = (nchildren + 1) / 2\<close> children, and the separator handed to the parent
  is the first key of the subtree of \<open>right\<close>.
\<close>

definition split_internal_nodes :: "BPTree \<Rightarrow> ptr \<Rightarrow> error + (BPTree \<times> key \<times> ptr)" where
  "split_internal_nodes t x =
     rbind (deref t x) (\<lambda>xn.
     rbind (op_size (ops t) (store xn)) (\<lambda>k.
     rbind (assert (k = max_keys t + 1)) (\<lambda>_.
     rbind (rmap (\<lambda>i. op_key_at (ops t) (store xn) i) [0..k - 1]) (\<lambda>keys.
     rbind (rmap (\<lambda>i. op_val_at (ops t) (store xn) i) [0..k - 1]) (\<lambda>vs.
     let ch = child0 xn # vs;
         nchildren = k + 1;
         left_children = (nchildren + 1) sdiv 2;
         left_keys = left_children - 1 in
     rbind (node_create t 0) (\<lambda>(t1, right).
     rbind (upd_node t1 right (\<lambda>r. r\<lparr>parent := parent xn\<rparr>)) (\<lambda>t2.
     rbind (upd_store t2 x (op_clear (ops t))) (\<lambda>t3.
     rbind (buf_get ch 0) (\<lambda>c0.
     rbind (upd_node t3 x (\<lambda>n. n\<lparr>child0 := c0\<rparr>)) (\<lambda>t4.
     rbind (set_parent_if t4 c0 x) (\<lambda>t5.
     rbind (rfold (\<lambda>i tt.
              rbind (buf_get ch (i + 1)) (\<lambda>c.
              rbind (buf_get keys i) (\<lambda>ki.
              rbind (upd_store tt x (\<lambda>s. op_insert_at (ops t) s i ki c)) (\<lambda>tt1.
              set_parent_if tt1 c x)))) [0..left_keys - 1] t5) (\<lambda>t6.
     rbind (buf_get ch left_children) (\<lambda>rc0.
     rbind (upd_node t6 right (\<lambda>r. r\<lparr>child0 := rc0\<rparr>)) (\<lambda>t7.
     rbind (set_parent_if t7 rc0 right) (\<lambda>t8.
     let rkeys = k - left_children in
     rbind (rfold (\<lambda>i tt.
              rbind (buf_get keys (left_children + i)) (\<lambda>kk.
              rbind (buf_get ch (left_children + 1 + i)) (\<lambda>c.
              rbind (upd_store tt right (\<lambda>s. op_insert_at (ops t) s i kk c)) (\<lambda>tt1.
              set_parent_if tt1 c right)))) [0..rkeys - 1] t8) (\<lambda>t9.
     rbind (subtree_first_key t9 right) (\<lambda>sep_key.
     Inr (t9, sep_key, right))))))))))))))))))"

fun insert_into_parent :: "nat \<Rightarrow> BPTree \<Rightarrow> ptr \<Rightarrow> key \<Rightarrow> ptr \<Rightarrow> error + BPTree" where
  "insert_into_parent 0 t left sep_key right = Inl Diverges"
| "insert_into_parent (Suc f) t left sep_key right =
     rbind (deref t left) (\<lambda>l.
     let par = parent l in
     if par = None then new_root t left sep_key right
     else
       rbind (parent_child_index t par left) (\<lambda>j.
       rbind (assert (j \<ge> 0)) (\<lambda>_.
       rbind (upd_store t par (\<lambda>s. op_insert_at (ops t) s j sep_key right)) (\<lambda>t1.
       rbind (upd_node t1 right (\<lambda>r. r\<lparr>parent := par\<rparr>)) (\<lambda>t2.
       rbind (deref t2 par) (\<lambda>p2.
       rbind (node_overflow t2 p2) (\<lambda>ov.
       if ov then
         rbind (split_internal_nodes t2 par) (\<lambda>(t3, up_key, r).
         insert_into_parent f t3 par up_key r)
       else Inr t2)))))))"

definition split_internal :: "nat \<Rightarrow> BPTree \<Rightarrow> ptr \<Rightarrow> error + BPTree" where
  "split_internal f t x =
     rbind (split_internal_nodes t x) (\<lambda>(t1, sep_key, right).
     insert_into_parent f t1 x sep_key right)"

definition split_leaf :: "nat \<Rightarrow> BPTree \<Rightarrow> ptr \<Rightarrow> error + BPTree" where
  "split_leaf f t leaf =
     rbind (split_leaf_nodes t leaf) (\<lambda>(t1, sep, right).
     insert_into_parent f t1 leaf sep right)"

text \<open>
  The borrow functions return the tree together with their \<open>int\<close> result
  (\<open>1\<close> when a key was moved).
\<close>

definition borrow_from_left_leaf :: "BPTree \<Rightarrow> ptr \<Rightarrow> ptr \<Rightarrow> int \<Rightarrow> error + (BPTree \<times> int)" where
  "borrow_from_left_leaf t leaf left leaf_idx_in_parent =
     rbind (deref t left) (\<lambda>ln0.
     rbind (op_size (ops t) (store ln0)) (\<lambda>ln.
     if ln \<le> min_leaf_keys t then Inr (t, 0)
     else
       rbind (op_key_at (ops t) (store ln0) (ln - 1)) (\<lambda>k.
       rbind (upd_store t left (\<lambda>s. op_erase_at (ops t) s (ln - 1))) (\<lambda>t1.
       rbind (upd_store t1 leaf (\<lambda>s. op_insert_at (ops t) s 0 k None)) (\<lambda>t2.
       rbind (deref t2 leaf) (\<lambda>lf.
       rbind (op_key_at (ops t) (store lf) 0) (\<lambda>k0.
       rbind (set_key_of t2 (parent lf) (leaf_idx_in_parent - 1) k0) (\<lambda>t3.
       Inr (t3, 1)))))))))"

definition borrow_from_right_leaf :: "BPTree \<Rightarrow> ptr \<Rightarrow> ptr \<Rightarrow> int \<Rightarrow> error + (BPTree \<times> int)" where
  "borrow_from_right_leaf t leaf right leaf_idx_in_parent =
     rbind (deref t right) (\<lambda>rn0.
     rbind (op_size (ops t) (store rn0)) (\<lambda>rn.
     if rn \<le> min_leaf_keys t then Inr (t, 0)
     else
       rbind (op_key_at (ops t) (store rn0) 0) (\<lambda>k.
       rbind (upd_store t right (\<lambda>s. op_erase_at (ops t) s 0)) (\<lambda>t1.
       rbind (deref t1 leaf) (\<lambda>lf.
       rbind (op_size (ops t) (store lf)) (\<lambda>ln.
       rbind (upd_store t1 leaf (\<lambda>s. op_insert_at (ops t) s ln k None)) (\<lambda>t2.
       rbind (deref t2 right) (\<lambda>rn2.
       rbind (op_size (ops t) (store rn2)) (\<lambda>rsz.
       if rsz > 0 then
         rbind (op_key_at (ops t) (store rn2) 0) (\<lambda>k0.
         rbind (deref t2 leaf) (\<lambda>lf2.
         rbind (set_key_of t2 (parent lf2) leaf_idx_in_parent k0) (\<lambda>t3.
         Inr (t3, 1))))
       else Inr (t2, 1))))))))))"

text \<open>
  The loop of the two leaf merges, \<open>for (i = 0; i < n; ++i)\<close>: read key \<open>i\<close> of
  \<open>src\<close> and insert it at \<open>base + i\<close> of \<open>dst\<close>.
\<close>

definition append_keys :: "BPTree \<Rightarrow> ptr \<Rightarrow> ptr \<Rightarrow> int \<Rightarrow> int \<Rightarrow> error + BPTree" where
  "append_keys t dst src base n =
     rfold (\<lambda>i tt.
       rbind (deref tt src) (\<lambda>sn.
       rbind (op_key_at (ops t) (store sn) i) (\<lambda>k.
       upd_store tt dst (\<lambda>s. op_insert_at (ops t) s (base + i) k None)))) [0..n - 1] t"

definition merge_leaf_into_left :: "BPTree \<Rightarrow> ptr \<Rightarrow> ptr \<Rightarrow> int \<Rightarrow> error + BPTree" where
  "merge_leaf_into_left t left leaf leaf_idx_in_parent =
     rbind (deref t left) (\<lambda>l0.
     rbind (op_size (ops t) (store l0)) (\<lambda>ln.
     rbind (deref t leaf) (\<lambda>lf0.
     rbind (op_size (ops t) (store lf0)) (\<lambda>n.
     rbind (append_keys t left leaf ln n) (\<lambda>t1.
     rbind (deref t1 leaf) (\<lambda>lf1.
     rbind (upd_node t1 left (\<lambda>l. l\<lparr>nxt := nxt lf1\<rparr>)) (\<lambda>t2.
     rbind (assert (leaf_idx_in_parent > 0)) (\<lambda>_.
     rbind (deref t2 left) (\<lambda>l2.
     rbind (upd_store t2 (parent l2) (\<lambda>s. op_erase_at (ops t) s (leaf_idx_in_parent - 1))) (\<lambda>t3.
     node_destroy t3 leaf))))))))))"

definition merge_right_leaf_into_leaf :: "BPTree \<Rightarrow> ptr \<Rightarrow> ptr \<Rightarrow> int \<Rightarrow> error + BPTree" where
  "merge_right_leaf_into_leaf t leaf right leaf_idx_in_parent =
     rbind (deref t leaf) (\<lambda>lf0.
     rbind (op_size (ops t) (store lf0)) (\<lambda>ln.
     rbind (deref t right) (\<lambda>r0.
     rbind (op_size (ops t) (store r0)) (\<lambda>rn.
     rbind (append_keys t leaf right ln rn) (\<lambda>t1.
     rbind (deref t1 right) (\<lambda>r1.
     rbind (upd_node t1 leaf (\<lambda>l. l\<lparr>nxt := nxt r1\<rparr>)) (\<lambda>t2.
     rbind (deref t2 leaf) (\<lambda>lf2.
     rbind (upd_store t2 (parent lf2) (\<lambda>s. op_erase_at (ops t) s leaf_idx_in_parent)) (\<lambda>t3.
     node_destroy t3 right)))))))))"

definition borrow_from_left_internal :: "BPTree \<Rightarrow> ptr \<Rightarrow> ptr \<Rightarrow> int \<Rightarrow> error + (BPTree \<times> int)" where
  "borrow_from_left_internal t x left x_idx_in_parent =
     rbind (deref t left) (\<lambda>l0.
     rbind (op_size (ops t) (store l0)) (\<lambda>lkeys.
     if lkeys \<le> min_internal_keys t then Inr (t, 0)
     else
       rbind (deref t x) (\<lambda>x0.
       rbind (deref t (parent x0)) (\<lambda>p0.
       rbind (op_key_at (ops t) (store p0) (x_idx_in_parent - 1)) (\<lambda>parent_sep.
       rbind (op_val_at (ops t) (store l0) (lkeys - 1)) (\<lambda>borrow_child.
       rbind (subtree_first_key t borrow_child) (\<lambda>borrow_child_min.
       rbind (upd_store t left (\<lambda>s. op_erase_at (ops t) s (lkeys - 1))) (\<lambda>t1.
       rbind (deref t1 x) (\<lambda>x1.
       let old_c0 = child0 x1 in
       rbind (upd_node t1 x (\<lambda>n. n\<lparr>child0 := borrow_child\<rparr>)) (\<lambda>t2.
       rbind (set_parent_if t2 borrow_child x) (\<lambda>t3.
       rbind (upd_store t3 x (\<lambda>s. op_insert_at (ops t) s 0 parent_sep old_c0)) (\<lambda>t4.
       rbind (set_parent_if t4 old_c0 x) (\<lambda>t5.
       rbind (deref t5 x) (\<lambda>x5.
       rbind (set_key_of t5 (parent x5) (x_idx_in_parent - 1) borrow_child_min) (\<lambda>t6.
       Inr (t6, 1))))))))))))))))"

definition borrow_from_right_internal :: "BPTree \<Rightarrow> ptr \<Rightarrow> ptr \<Rightarrow> int \<Rightarrow> error + (BPTree \<times> int)" where
  "borrow_from_right_internal t x right x_idx_in_parent =
     rbind (deref t right) (\<lambda>r0.
     rbind (op_size (ops t) (store r0)) (\<lambda>rkeys.
     if rkeys \<le> min_internal_keys t then Inr (t, 0)
     else
       rbind (deref t x) (\<lambda>x0.
       rbind (deref t (parent x0)) (\<lambda>p0.
       rbind (op_key_at (ops t) (store p0) x_idx_in_parent) (\<lambda>parent_sep.
       let borrow_child = child0 r0 in
       rbind (op_val_at (ops t) (store r0) 0) (\<lambda>new_c0.
       rbind (op_key_at (ops t) (store r0) 0) (\<lambda>new_right_min.
       rbind (upd_store t right (\<lambda>s. op_erase_at (ops t) s 0)) (\<lambda>t1.
       rbind (upd_node t1 right (\<lambda>n. n\<lparr>child0 := new_c0\<rparr>)) (\<lambda>t2.
       rbind (set_parent_if t2 new_c0 right) (\<lambda>t3.
       rbind (deref t3 x) (\<lambda>x3.
       rbind (op_size (ops t) (store x3)) (\<lambda>xn.
       rbind (upd_store t3 x (\<lambda>s. op_insert_at (ops t) s xn parent_sep borrow_child)) (\<lambda>t4.
       rbind (set_parent_if t4 borrow_child x) (\<lambda>t5.
       rbind (deref t5 x) (\<lambda>x5.
       rbind (set_key_of t5 (parent x5) x_idx_in_parent new_right_min) (\<lambda>t6.
       Inr (t6, 1)))))))))))))))))"

text \<open>
  The loop of the two internal merges: read entry \<open>i\<close> of \<open>src\<close>, insert it at
  \<open>base + i\<close> of \<open>dst\<close> and make \<open>dst\<close> the parent of its child.
\<close>

definition append_entries :: "BPTree \<Rightarrow> ptr \<Rightarrow> ptr \<Rightarrow> int \<Rightarrow> int \<Rightarrow> error + BPTree" where
  "append_entries t dst src base n =
     rfold (\<lambda>i tt.
       rbind (deref tt src) (\<lambda>sn.
       rbind (op_key_at (ops t) (store sn) i) (\<lambda>k.
       rbind (op_val_at (ops t) (store sn) i) (\<lambda>c.
       rbind (upd_store tt dst (\<lambda>s. op_insert_at (ops t) s (base + i) k c)) (\<lambda>tt1.
       set_parent_if tt1 c dst))))) [0..n - 1] t"

definition merge_internal_into_left :: "BPTree \<Rightarrow> ptr \<Rightarrow> ptr \<Rightarrow> int \<Rightarrow> error + BPTree" where
  "merge_internal_into_left t left x x_idx_in_parent =
     rbind (deref t left) (\<lambda>l0.
     rbind (deref t (parent l0)) (\<lambda>p0.
     rbind (op_key_at (ops t) (store p0) (x_idx_in_parent - 1)) (\<lambda>sep.
     rbind (op_size (ops t) (store l0)) (\<lambda>ln.
     rbind (deref t x) (\<lambda>x0.
     rbind (upd_store t left (\<lambda>s. op_insert_at (ops t) s ln sep (child0 x0))) (\<lambda>t1.
     rbind (deref t1 x) (\<lambda>x1.
     rbind (set_parent_if t1 (child0 x1) left) (\<lambda>t2.
     rbind (deref t2 x) (\<lambda>x2.
     rbind (op_size (ops t) (store x2)) (\<lambda>xn.
     rbind (append_entries t2 left x (ln + 1) xn) (\<lambda>t3.
     rbind (deref t3 left) (\<lambda>l3.
     rbind (upd_store t3 (parent l3) (\<lambda>s. op_erase_at (ops t) s (x_idx_in_parent - 1))) (\<lambda>t4.
     node_destroy t4 x)))))))))))))"

definition merge_right_internal_into_x :: "BPTree \<Rightarrow> ptr \<Rightarrow> ptr \<Rightarrow> int \<Rightarrow> error + BPTree" where
  "merge_right_internal_into_x t x right x_idx_in_parent =
     rbind (deref t x) (\<lambda>x0.
     rbind (deref t (parent x0)) (\<lambda>p0.
     rbind (op_key_at (ops t) (store p0) x_idx_in_parent) (\<lambda>sep.
     rbind (op_size (ops t) (store x0)) (\<lambda>xn.
     rbind (deref t right) (\<lambda>r0.
     rbind (upd_store t x (\<lambda>s. op_insert_at (ops t) s xn sep (child0 r0))) (\<lambda>t1.
     rbind (deref t1 right) (\<lambda>r1.
     rbind (set_parent_if t1 (child0 r1) x) (\<lambda>t2.
     rbind (deref t2 right) (\<lambda>r2.
     rbind (op_size (ops t) (store r2)) (\<lambda>rn.
     rbind (append_entries t2 x right (xn + 1) rn) (\<lambda>t3.
     rbind (deref t3 x) (\<lambda>x3.
     rbind (upd_store t3 (parent x3) (\<lambda>s. op_erase_at (ops t) s x_idx_in_parent)) (\<lambda>t4.
     node_destroy t4 right)))))))))))))"

text \<open>
  \<open>rebalance_after_delete\<close>. \<open>siblings\<close> computes \<open>left\<close> and \<open>right\<close> as both branches
  of the function do; a recursive call climbs to the parent.
\<close>

definition siblings :: "BPTree \<Rightarrow> ptr \<Rightarrow> int \<Rightarrow> error + (ptr \<times> ptr)" where
  "siblings t par x_idx =
     rbind (if x_idx > 0 then parent_child_at t par (x_idx - 1) else Inr None) (\<lambda>left.
     rbind (deref t par) (\<lambda>p.
     rbind (op_size (ops t) (store p)) (\<lambda>pn.
     rbind (if x_idx < pn then parent_child_at t par (x_idx + 1) else Inr None) (\<lambda>right.
     Inr (left, right)))))"

fun rebalance_after_delete :: "nat \<Rightarrow> BPTree \<Rightarrow> ptr \<Rightarrow> error + BPTree" where
  "rebalance_after_delete 0 t x = Inl Diverges"
| "rebalance_after_delete (Suc f) t x =
     (if x = None then Inr t
      else if x = root t then fix_root_after_delete t
      else
        rbind (deref t x) (\<lambda>xn.
        let par = parent xn in
        rbind (parent_child_index t par x) (\<lambda>x_idx.
        rbind (assert (x_idx \<ge> 0)) (\<lambda>_.
        rbind (op_size (ops t) (store xn)) (\<lambda>nkeys.
        if is_leaf xn \<noteq> 0 then
          (if nkeys \<ge> min_leaf_keys t then update_parent_sep_if_needed t x
           else
             rbind (siblings t par x_idx) (\<lambda>(left, right).
             rbind (if left \<noteq> None then borrow_from_left_leaf t x left x_idx
                    else Inr (t, 0)) (\<lambda>(t1, b1).
             if b1 \<noteq> 0 then Inr t1
             else
               rbind (if right \<noteq> None then borrow_from_right_leaf t1 x right x_idx
                      else Inr (t1, 0)) (\<lambda>(t2, b2).
               if b2 \<noteq> 0 then Inr t2
               else if left \<noteq> None then
                 rbind (merge_leaf_into_left t2 left x x_idx) (\<lambda>t3.
                 rebalance_after_delete f t3 par)
               else if right \<noteq> None then
                 rbind (merge_right_leaf_into_leaf t2 x right x_idx) (\<lambda>t3.
                 rebalance_after_delete f t3 par)
               else Inr t2))))
        else
          (if nkeys \<ge> min_internal_keys t then update_parent_sep_if_needed t x
           else
             rbind (siblings t par x_idx) (\<lambda>(left, right).
             rbind (if left \<noteq> None then borrow_from_left_internal t x left x_idx
                    else Inr (t, 0)) (\<lambda>(t1, b1).
             if b1 \<noteq> 0 then Inr t1
             else
               rbind (if right \<noteq> None then borrow_from_right_internal t1 x right x_idx
                      else Inr (t1, 0)) (\<lambda>(t2, b2).
               if b2 \<noteq> 0 then Inr t2
               else if left \<noteq> None then
                 rbind (merge_internal_into_left t2 left x x_idx) (\<lambda>t3.
                 rebalance_after_delete f t3 par)
               else if right \<noteq> None then
                 rbind (merge_right_internal_into_x t2 x right x_idx) (\<lambda>t3.
                 rebalance_after_delete f t3 par)
               else Inr t2)))))))))"

definition bptree_search :: "BPTree option \<Rightarrow> key \<Rightarrow> error + int" where
  "bptree_search th k =
     (case th of
        None \<Rightarrow> Inr 0
      | Some t \<Rightarrow>
          if root t = None then Inr 0
          else
            rbind (find_leaf t k) (\<lambda>leaf.
            if leaf = None then Inr 0
            else
              rbind (deref t leaf) (\<lambda>lf.
              rbind (leaf_find t lf k) (\<lambda>(found, idx). Inr found))))"

definition bptree_insert :: "BPTree option \<Rightarrow> key \<Rightarrow> error + BPTree option" where
  "bptree_insert th k =
     (case th of
        None \<Rightarrow> Inr None
      | Some t \<Rightarrow>
          if root t = None then Inr (Some t)
          else
            rbind (find_leaf t k) (\<lambda>leaf.
            rbind (assert (leaf \<noteq> None)) (\<lambda>_.
            rbind (deref t leaf) (\<lambda>lf.
            rbind (leaf_find t lf k) (\<lambda>(found, idx).
            if found \<noteq> 0 then Inr (Some t)
            else
              rbind (upd_store t leaf (\<lambda>s. op_insert_at (ops t) s idx k None)) (\<lambda>t1.
              rbind (deref t1 leaf) (\<lambda>lf1.
              rbind (node_overflow t1 lf1) (\<lambda>ov.
              rbind (if ov then split_leaf (Suc (length (nodes t1))) t1 leaf
                     else Inr t1) (\<lambda>t2.
              rbind (update_parent_sep_if_needed t2 leaf) (\<lambda>t3.
              Inr (Some t3)))))))))))"

definition bptree_delete :: "BPTree option \<Rightarrow> key \<Rightarrow> error + BPTree option" where
  "bptree_delete th k =
     (case th of
        None \<Rightarrow> Inr None
      | Some t \<Rightarrow>
          if root t = None then Inr (Some t)
          else
            rbind (find_leaf t k) (\<lambda>leaf.
            if leaf = None then Inr (Some t)
            else
              rbind (deref t leaf) (\<lambda>lf.
              rbind (leaf_find t lf k) (\<lambda>(found, idx).
              if found = 0 then Inr (Some t)
              else
                rbind (upd_store t leaf (\<lambda>s. op_erase_at (ops t) s idx)) (\<lambda>t1.
                rbind (rebalance_after_delete (Suc (length (nodes t1))) t1 leaf) (\<lambda>t2.
                rbind (fix_root_after_delete t2) (\<lambda>t3.
                Inr (Some t3))))))))"

section \<open>Sequences of public operations and the shape of a tree\<close>

text \<open>
  A client of the library creates a tree and then calls \<open>bptree_insert\<close> and
  \<open>bptree_delete\<close>. \<open>run M os\<close> is the tree after \<open>bptree_create(M, NULL)\<close> and the
  calls \<open>os\<close> on the scheme-A version; \<open>run_code\<close> is the same on src/code/bptree.c.
\<close>

datatype tree_op = Insert key | Delete key

fun apply_op :: "tree_op \<Rightarrow> BPTree option \<Rightarrow> error + BPTree option" where
  "apply_op (Insert k) th = bptree_insert th k"
| "apply_op (Delete k) th = bptree_delete th k"

fun apply_op_code :: "tree_op \<Rightarrow> BPTree option \<Rightarrow> error + BPTree option" where
  "apply_op_code (Insert k) th = bptree_insert_code th k"
| "apply_op_code (Delete k) th = bptree_delete_code th k"

definition run_from :: "NodeStoreOps option \<Rightarrow> int \<Rightarrow> tree_op list \<Rightarrow> error + BPTree option" where
  "run_from ops0 M os = rbind (bptree_create M ops0) (\<lambda>t. rfold apply_op os (Some t))"

definition run_from_code :: "NodeStoreOps option \<Rightarrow> int \<Rightarrow> tree_op list \<Rightarrow> error + BPTree option" where
  "run_from_code ops0 M os = rbind (bptree_create M ops0) (\<lambda>t. rfold apply_op_code os (Some t))"

definition run :: "int \<Rightarrow> tree_op list \<Rightarrow> error + BPTree option" where
  "run M os = run_from None M os"

definition run_code :: "int \<Rightarrow> tree_op list \<Rightarrow> error + BPTree option" where
  "run_code M os = run_from_code None M os"

definition the_tree :: "error + BPTree option \<Rightarrow> BPTree option" where
  "the_tree r = (case r of Inl e \<Rightarrow> None | Inr th \<Rightarrow> th)"

text \<open>The keys and the value slots of a node, read through the operations table.\<close>

definition node_key_list :: "BPTree \<Rightarrow> ptr \<Rightarrow> error + key list" where
  "node_key_list t x =
     rbind (deref t x) (\<lambda>n.
     rbind (node_keys t n) (\<lambda>k.
     rmap (\<lambda>i. op_key_at (ops t) (store n) i) [0..k - 1]))"

definition node_val_list :: "BPTree \<Rightarrow> ptr \<Rightarrow> error + ptr list" where
  "node_val_list t x =
     rbind (deref t x) (\<lambda>n.
     rbind (node_keys t n) (\<lambda>k.
     rmap (\<lambda>i. op_val_at (ops t) (store n) i) [0..k - 1]))"

text \<open>
  The tree below a node, read off the heap: a leaf with its keys, or an internal node
  with its keys and the trees below \<open>child0\<close> and the value slots, in order.
\<close>

datatype shape = Leaf_shape "key list" | Node_shape "key list" "shape list"

fun shape_of :: "nat \<Rightarrow> BPTree \<Rightarrow> ptr \<Rightarrow> error + shape" where
  "shape_of 0 t x = Inl Diverges"
| "shape_of (Suc f) t x =
     rbind (deref t x) (\<lambda>n.
     rbind (node_key_list t x) (\<lambda>ks.
     if is_leaf n \<noteq> 0 then Inr (Leaf_shape ks)
     else
       rbind (node_val_list t x) (\<lambda>vs.
       rbind (rmap (\<lambda>c. shape_of f t c) (child0 n # vs)) (\<lambda>cs.
       Inr (Node_shape ks cs)))))"

definition tree_shape :: "BPTree option \<Rightarrow> error + shape" where
  "tree_shape th =
     (case th of
        None \<Rightarrow> Inl Null_deref
      | Some t \<Rightarrow> shape_of (Suc (length (nodes t))) t (root t))"

text \<open>The number of nodes allocated and not freed.\<close>

definition live_nodes :: "BPTree option \<Rightarrow> nat" where
  "live_nodes th = (case th of None \<Rightarrow> 0 | Some t \<Rightarrow> length (filter (\<lambda>c. c \<noteq> None) (nodes t)))"

text \<open>
  A small tree used as a concrete input: order 3 after the insertion of 10, 20 and 30,
  built by the scheme-A version and by src/code/bptree.c.
\<close>

definition example_tree :: "BPTree option" where
  "example_tree = the_tree (run 3 [Insert 10, Insert 20, Insert 30])"

definition example_tree_code :: "BPTree option" where
  "example_tree_code = the_tree (run_code 3 [Insert 10, Insert 20, Insert 30])"

text \<open>The keys of the leaf that a descent for \<open>k\<close> ends in.\<close>

definition found_leaf_keys :: "BPTree option \<Rightarrow> key \<Rightarrow> error + key list" where
  "found_leaf_keys th k =
     (case th of
        None \<Rightarrow> Inl Null_deref
      | Some t \<Rightarrow> rbind (find_leaf t k) (node_key_list t))"

definition found_leaf_keys_code :: "BPTree option \<Rightarrow> key \<Rightarrow> error + key list" where
  "found_leaf_keys_code th k =
     (case th of
        None \<Rightarrow> Inl Null_deref
      | Some t \<Rightarrow> rbind (find_leaf_code t k) (node_key_list t))"

section \<open>What a store holds\<close>

text \<open>
  An array store holds the entries \<open>es\<close> when \<open>n\<close> is their number, both arrays have
  \<open>cap\<close> cells, and the first \<open>n\<close> cells of \<open>keys\<close> and \<open>vals\<close> have been written
  with the keys and the values of \<open>es\<close>, in order.
\<close>

definition arr_holds :: "'a ArrayStore_scheme \<Rightarrow> (key \<times> ptr) list \<Rightarrow> bool" where
  "arr_holds s es =
     (arr_n s = int (length es)
      \<and> length (arr_keys s) = nat (arr_cap s) \<and> length (arr_vals s) = nat (arr_cap s)
      \<and> length es \<le> nat (arr_cap s)
      \<and> take (length es) (arr_keys s) = map (\<lambda>e. Some (fst e)) es
      \<and> take (length es) (arr_vals s) = map (\<lambda>e. Some (snd e)) es)"

text \<open>
  A linked store holds \<open>es\<close> when its chain is \<open>es\<close> and \<open>n\<close> is their number; so
  does a skip-list store with its level-0 chain. A mirrored store holds \<open>es\<close> when its
  arrays do and its skip list has exactly the keys of \<open>es\<close>.
\<close>

definition lst_holds :: "ListStore \<Rightarrow> (key \<times> ptr) list \<Rightarrow> bool" where
  "lst_holds s es = (lst_n s = int (length es) \<and> lst_head s = es)"

definition sk1_holds :: "Skip1Store \<Rightarrow> (key \<times> ptr) list \<Rightarrow> bool" where
  "sk1_holds s es = (sl_n (sk1_sl s) = int (length es) \<and> sl_chain (sk1_sl s) = es)"

definition skp_holds :: "SkipStore \<Rightarrow> (key \<times> ptr) list \<Rightarrow> bool" where
  "skp_holds s es = (arr_holds s es \<and> skp_sl s = map fst es)"

text \<open>
  An order-3 tree whose root leaf has just received its third key: the state in which
  \<open>bptree_insert\<close> calls \<open>split_leaf\<close>.
\<close>

definition overflowing_leaf :: BPTree where
  "overflowing_leaf =
     \<lparr>order_M = 3, max_keys = 2, ops = nodestore_array_ops, root = Some 0,
      nodes = [Some \<lparr>is_leaf = 1, node_max_keys = 2, parent = None, nxt = None, child0 = None,
                     store = Array_store
                       \<lparr>arr_cap = 3, arr_n = 3, arr_keys = [Some 10, Some 20, Some 30],
                          arr_vals = [Some None, Some None, Some None]\<rparr>\<rparr>]\<rparr>"

section \<open>Sizes of the stores and the bound on them\<close>

text \<open>
  The capacity assertion of \<open>ns_insert_at\<close> depends only on the number of entries of
  each store, so the heap is summarised by the list of these numbers, one per address
  (\<open>0\<close> for a freed cell). A node is in order for \<open>M\<close> when its store is an array store
  of capacity \<open>M = max_keys + 1\<close>, as \<open>node_create\<close> allocates it.
\<close>

definition store_ok :: "int \<Rightarrow> BPTreeNode option \<Rightarrow> bool" where
  "store_ok M c =
     (case c of
        None \<Rightarrow> True
      | Some nd \<Rightarrow>
          (case store nd of
             Array_store a \<Rightarrow> arr_cap a = M \<and> node_max_keys nd = M - 1
           | _ \<Rightarrow> False))"

definition cell_size :: "BPTreeNode option \<Rightarrow> int" where
  "cell_size c =
     (case c of
        None \<Rightarrow> 0
      | Some nd \<Rightarrow> (case store nd of Array_store a \<Rightarrow> arr_n a | _ \<Rightarrow> 0))"

definition szs :: "BPTree \<Rightarrow> int list" where
  "szs t = map cell_size (nodes t)"

definition wfM :: "int \<Rightarrow> BPTree \<Rightarrow> bool" where
  "wfM M t =
     (ops t = nodestore_array_ops \<and> order_M t = M \<and> max_keys t = M - 1
      \<and> list_all (store_ok M) (nodes t))"

text \<open>
  A tree is within capacity when its order is at least 3, all its nodes are in order
  for it, and every store holds at most \<open>order_M - 1\<close> entries.
\<close>

definition within_capacity :: "BPTree \<Rightarrow> bool" where
  "within_capacity t =
     (3 \<le> order_M t \<and> wfM (order_M t) t \<and> list_all (\<lambda>s. s \<le> order_M t - 1) (szs t))"

text \<open>
  \<open>nocap m\<close>: the computation \<open>m\<close> does not stop at the capacity assertion.
  \<open>okv m Q\<close>: moreover, when \<open>m\<close> returns, its result satisfies \<open>Q\<close>. Other failures
  (an index assertion, a null pointer, a walk that never ends) are allowed by both:
  they are not the assertion in question.
\<close>

definition nocap :: "error + 'a \<Rightarrow> bool" where
  "nocap m = (m \<noteq> Inl Capacity_assert)"

definition okv :: "error + 'a \<Rightarrow> ('a \<Rightarrow> bool) \<Rightarrow> bool" where
  "okv m Q = (m \<noteq> Inl Capacity_assert \<and> (case m of Inl e \<Rightarrow> True | Inr r \<Rightarrow> Q r))"

text \<open>
  Reading the list of sizes through a pointer: \<open>inb\<close> tells whether the pointer is an
  address of the heap, \<open>sz_at\<close> is the size found there (\<open>0\<close> for any other pointer), and
  \<open>bump p h\<close> changes the size at \<open>p\<close> by \<open>h\<close>. Two pointers may be equal: nothing
  below relies on the shape of the tree.
\<close>

definition inb :: "int list \<Rightarrow> ptr \<Rightarrow> bool" where
  "inb xs p = (case p of None \<Rightarrow> False | Some q \<Rightarrow> q < length xs)"

definition sz_at :: "int list \<Rightarrow> ptr \<Rightarrow> int" where
  "sz_at xs p = (case p of None \<Rightarrow> 0 | Some q \<Rightarrow> if q < length xs then xs ! q else 0)"

definition bump :: "ptr \<Rightarrow> (int \<Rightarrow> int) \<Rightarrow> int list \<Rightarrow> int list" where
  "bump p h xs = (case p of None \<Rightarrow> xs | Some q \<Rightarrow> xs[q := h (xs ! q)])"

text \<open>
  The invariant of the public operations (\<open>bnd\<close>, and \<open>bndo\<close> for a handle that may be
  null), the state between an insertion and the split that follows it (\<open>bnd_but\<close>: every
  node but \<open>x\<close> is bounded), a bound on a list of sizes alone (\<open>allb\<close>), and the nodes
  whose store is an array store (\<open>is_arr\<close>).
\<close>

definition bnd :: "int \<Rightarrow> BPTree \<Rightarrow> bool" where
  "bnd M t = (wfM M t \<and> (\<forall>p. sz_at (szs t) p \<le> M - 1))"

definition bnd_but :: "int \<Rightarrow> BPTree \<Rightarrow> ptr \<Rightarrow> bool" where
  "bnd_but M t x = (wfM M t \<and> (\<forall>p. p \<noteq> x \<longrightarrow> sz_at (szs t) p \<le> M - 1))"

definition bndo :: "int \<Rightarrow> BPTree option \<Rightarrow> bool" where
  "bndo M th = (case th of None \<Rightarrow> True | Some t \<Rightarrow> bnd M t)"

definition allb :: "int \<Rightarrow> int list \<Rightarrow> bool" where
  "allb B xs = (\<forall>p. sz_at xs p \<le> B)"

definition is_arr :: "BPTreeNode \<Rightarrow> bool" where
  "is_arr nd = (case store nd of Array_store a \<Rightarrow> True | _ \<Rightarrow> False)"

section \<open>Basic facts\<close>

lemma rbind_simps [simp]:
  "rbind (Inr x) f = f x"
  "rbind (Inl e) f = Inl e"
  by (simp_all add: rbind_def)

lemma height_loop_mono: "height_loop f t h0 x = Inr h \<Longrightarrow> h0 \<le> h"
proof (induction f arbitrary: h0 x)
  case 0
  then show ?case by simp
next
  case (Suc f)
  show ?case
  proof (cases x)
    case None
    with Suc.prems show ?thesis by simp
  next
    case (Some a)
    show ?thesis
    proof (cases "deref t x")
      case (Inl e)
      with Suc.prems Some show ?thesis by simp
    next
      case (Inr nd)
      show ?thesis
      proof (cases "is_leaf nd \<noteq> 0")
        case True
        with Suc.prems Some Inr show ?thesis by simp
      next
        case False
        with Suc.prems Some Inr have "height_loop f t (h0 + 1) (child0 nd) = Inr h" by simp
        from Suc.IH [OF this] show ?thesis by simp
      qed
    qed
  qed
qed

lemma arr_lb_empty: "arr_lb_loop ks k 0 0 = Inr 0"
  by (simp add: arr_lb_loop.simps)

lemma sdiv2_nonneg: "0 \<le> (n::int) \<Longrightarrow> n sdiv 2 = n div 2"
  by (simp add: signed_divide_int_def sgn_if)

lemma arr_split_loop_ok:
  assumes "0 \<le> i" "0 \<le> mid"
    and "nat (mid + move) \<le> length (arr_keys left)"
    and "nat (mid + move) \<le> length (arr_vals left)"
    and "nat move \<le> length (arr_keys right)"
    and "nat move \<le> length (arr_vals right)"
  shows "\<exists>r. arr_split_loop left right mid move i = Inr r
           \<and> arr_cap r = arr_cap right \<and> arr_n r = arr_n right
           \<and> ArrayStore.more r = ArrayStore.more right
           \<and> length (arr_keys r) = length (arr_keys right)
           \<and> length (arr_vals r) = length (arr_vals right)
           \<and> (\<forall>j < length (arr_keys right). arr_keys r ! j =
                 (if nat i \<le> j \<and> j < nat move then arr_keys left ! (nat mid + j)
                  else arr_keys right ! j))
           \<and> (\<forall>j < length (arr_vals right). arr_vals r ! j =
                 (if nat i \<le> j \<and> j < nat move then arr_vals left ! (nat mid + j)
                  else arr_vals right ! j))"
  using assms
proof (induction left right mid move i rule: arr_split_loop.induct)
  case (1 left right mid move i)
  show ?case
  proof (cases "i < move")
    case False
    with 1(2) show ?thesis
      by (auto simp add: arr_split_loop.simps)
  next
    case True
    let ?ks = "(arr_keys right)[nat i := arr_keys left ! nat (mid + i)]"
    let ?vs = "(arr_vals right)[nat i := arr_vals left ! nat (mid + i)]"
    let ?r1 = "right\<lparr>arr_keys := ?ks, arr_vals := ?vs\<rparr>"
    from True 1(2-) have b: "nat (mid + i) < length (arr_keys left)"
      "nat (mid + i) < length (arr_vals left)" "nat i < length (arr_keys right)"
      "nat i < length (arr_vals right)"
      by linarith+
    from True 1(2,3) b have g1: "cell_get (arr_keys left) (mid + i) = Inr (arr_keys left ! nat (mid + i))"
      and g2: "cell_get (arr_vals left) (mid + i) = Inr (arr_vals left ! nat (mid + i))"
      and w1: "cell_write (arr_keys right) i (arr_keys left ! nat (mid + i)) = Inr ?ks"
      and w2: "cell_write (arr_vals right) i (arr_vals left ! nat (mid + i)) = Inr ?vs"
      by (auto simp: cell_get_def cell_write_def)
    have step: "arr_split_loop left right mid move i = arr_split_loop left ?r1 mid move (i + 1)"
      using True g1 g2 w1 w2 by (subst arr_split_loop.simps) simp
    have "\<exists>r. arr_split_loop left ?r1 mid move (i + 1) = Inr r
           \<and> arr_cap r = arr_cap ?r1 \<and> arr_n r = arr_n ?r1
           \<and> ArrayStore.more r = ArrayStore.more ?r1
           \<and> length (arr_keys r) = length (arr_keys ?r1)
           \<and> length (arr_vals r) = length (arr_vals ?r1)
           \<and> (\<forall>j < length (arr_keys ?r1). arr_keys r ! j =
                 (if nat (i + 1) \<le> j \<and> j < nat move then arr_keys left ! (nat mid + j)
                  else arr_keys ?r1 ! j))
           \<and> (\<forall>j < length (arr_vals ?r1). arr_vals r ! j =
                 (if nat (i + 1) \<le> j \<and> j < nat move then arr_vals left ! (nat mid + j)
                  else arr_vals ?r1 ! j))"
      using True 1(2-) g1 g2 w1 w2
      by (intro 1(1)) auto
    then obtain r where r: "arr_split_loop left ?r1 mid move (i + 1) = Inr r"
      "arr_cap r = arr_cap right" "arr_n r = arr_n right"
      "ArrayStore.more r = ArrayStore.more right"
      "length (arr_keys r) = length (arr_keys right)"
      "length (arr_vals r) = length (arr_vals right)"
      and rk: "\<And>j. j < length (arr_keys right) \<Longrightarrow> arr_keys r ! j =
                 (if nat (i + 1) \<le> j \<and> j < nat move then arr_keys left ! (nat mid + j)
                  else ?ks ! j)"
      and rv: "\<And>j. j < length (arr_vals right) \<Longrightarrow> arr_vals r ! j =
                 (if nat (i + 1) \<le> j \<and> j < nat move then arr_vals left ! (nat mid + j)
                  else ?vs ! j)"
      by auto
    have mi: "nat (mid + i) = nat mid + nat i" using 1(2,3) by (simp add: nat_add_distrib)
    have k: "arr_keys r ! j = (if nat i \<le> j \<and> j < nat move then arr_keys left ! (nat mid + j)
                  else arr_keys right ! j)" if "j < length (arr_keys right)" for j
      using rk [OF that] that True 1(2) mi
      by (cases "j = nat i") (auto simp: nth_list_update)
    have v: "arr_vals r ! j = (if nat i \<le> j \<and> j < nat move then arr_vals left ! (nat mid + j)
                  else arr_vals right ! j)" if "j < length (arr_vals right)" for j
      using rv [OF that] that True 1(2) mi
      by (cases "j = nat i") (auto simp: nth_list_update)
    from r k v step show ?thesis by auto
  qed
qed


lemma arr_holds_nth:
  assumes "arr_holds s es" "j < length es"
  shows "arr_keys s ! j = Some (fst (es ! j))" "arr_vals s ! j = Some (snd (es ! j))"
proof -
  from assms have "take (length es) (arr_keys s) ! j = map (\<lambda>e. Some (fst e)) es ! j"
    "take (length es) (arr_vals s) ! j = map (\<lambda>e. Some (snd e)) es ! j"
    by (simp_all add: arr_holds_def)
  with assms show "arr_keys s ! j = Some (fst (es ! j))" "arr_vals s ! j = Some (snd (es ! j))"
    by simp_all
qed

lemma sdiv2_int: "int n sdiv 2 = int (n div 2)"
  by (simp add: sdiv2_nonneg zdiv_int)

lemma arr_split_copy:
  assumes L: "arr_holds left es" and R: "arr_holds right []"
    and cap: "length es - length es div 2 \<le> nat (arr_cap right)"
  shows "\<exists>r. arr_split_loop left right (int (length es div 2))
                (int (length es) - int (length es div 2)) 0 = Inr r
           \<and> arr_cap r = arr_cap right \<and> ArrayStore.more r = ArrayStore.more right
           \<and> arr_holds (r\<lparr>arr_n := int (length es) - int (length es div 2)\<rparr>)
                (drop (length es div 2) es)"
proof -
  let ?n = "length es" and ?m = "length es div 2"
  let ?mid = "int ?m" and ?move = "int ?n - int ?m"
  have mv: "nat ?move = ?n - ?m" by linarith
  have mm: "nat (?mid + ?move) = ?n" by simp
  from L have ll: "?n \<le> length (arr_keys left)" "?n \<le> length (arr_vals left)"
    by (simp_all add: arr_holds_def)
  from R have rl: "length (arr_keys right) = nat (arr_cap right)"
    "length (arr_vals right) = nat (arr_cap right)"
    by (simp_all add: arr_holds_def)
  have "\<exists>r. arr_split_loop left right ?mid ?move 0 = Inr r
           \<and> arr_cap r = arr_cap right \<and> arr_n r = arr_n right
           \<and> ArrayStore.more r = ArrayStore.more right
           \<and> length (arr_keys r) = length (arr_keys right)
           \<and> length (arr_vals r) = length (arr_vals right)
           \<and> (\<forall>j < length (arr_keys right). arr_keys r ! j =
                 (if nat 0 \<le> j \<and> j < nat ?move then arr_keys left ! (nat ?mid + j)
                  else arr_keys right ! j))
           \<and> (\<forall>j < length (arr_vals right). arr_vals r ! j =
                 (if nat 0 \<le> j \<and> j < nat ?move then arr_vals left ! (nat ?mid + j)
                  else arr_vals right ! j))"
    using ll rl cap mv mm by (intro arr_split_loop_ok) simp_all
  then obtain r where r: "arr_split_loop left right ?mid ?move 0 = Inr r"
    "arr_cap r = arr_cap right" "ArrayStore.more r = ArrayStore.more right"
    "length (arr_keys r) = nat (arr_cap right)" "length (arr_vals r) = nat (arr_cap right)"
    and rk: "\<And>j. j < ?n - ?m \<Longrightarrow> arr_keys r ! j = arr_keys left ! (?m + j)"
    and rv: "\<And>j. j < ?n - ?m \<Longrightarrow> arr_vals r ! j = arr_vals left ! (?m + j)"
    using rl cap mv by auto
  have k: "take (?n - ?m) (arr_keys r) = map (\<lambda>e. Some (fst e)) (drop ?m es)"
  proof (rule nth_equalityI)
    show "length (take (?n - ?m) (arr_keys r)) = length (map (\<lambda>e. Some (fst e)) (drop ?m es))"
      using r cap by simp
  next
    fix j assume "j < length (take (?n - ?m) (arr_keys r))"
    then have j: "j < ?n - ?m" by simp
    then have "?m + j < ?n" by linarith
    from arr_holds_nth(1) [OF L this] rk [OF j] j
    show "take (?n - ?m) (arr_keys r) ! j = map (\<lambda>e. Some (fst e)) (drop ?m es) ! j"
      by simp
  qed
  have v: "take (?n - ?m) (arr_vals r) = map (\<lambda>e. Some (snd e)) (drop ?m es)"
  proof (rule nth_equalityI)
    show "length (take (?n - ?m) (arr_vals r)) = length (map (\<lambda>e. Some (snd e)) (drop ?m es))"
      using r cap by simp
  next
    fix j assume "j < length (take (?n - ?m) (arr_vals r))"
    then have j: "j < ?n - ?m" by simp
    then have "?m + j < ?n" by linarith
    from arr_holds_nth(2) [OF L this] rv [OF j] j
    show "take (?n - ?m) (arr_vals r) ! j = map (\<lambda>e. Some (snd e)) (drop ?m es) ! j"
      by simp
  qed
  have "arr_holds (r\<lparr>arr_n := ?move\<rparr>) (drop ?m es)"
    using r k v cap by (simp add: arr_holds_def of_nat_diff)
  with r show ?thesis by blast
qed

lemma arr_holds_take:
  assumes "arr_holds s es" "m \<le> length es"
  shows "arr_holds (s\<lparr>arr_n := int m\<rparr>) (take m es)"
proof -
  have "take m (arr_keys s) = take m (take (length es) (arr_keys s))"
    "take m (arr_vals s) = take m (take (length es) (arr_vals s))"
    using assms(2) by (simp_all add: min_absorb1)
  with assms(1) have "take m (arr_keys s) = map (\<lambda>e. Some (fst e)) (take m es)"
    "take m (arr_vals s) = map (\<lambda>e. Some (snd e)) (take m es)"
    by (simp_all only: arr_holds_def take_map)
  with assms show ?thesis
    by (simp add: arr_holds_def min_absorb2)
qed

lemma arr_ns_split_ok:
  assumes L: "arr_holds left es" and n: "1 \<le> length es" and R: "arr_holds right []"
    and cap: "length es - length es div 2 \<le> nat (arr_cap right)"
  shows "\<exists>l r. arr_ns_split left right = Inr (l, r, fst (es ! (length es div 2)))
           \<and> arr_holds l (take (length es div 2) es)
           \<and> arr_holds r (drop (length es div 2) es)
           \<and> arr_cap l = arr_cap left \<and> arr_cap r = arr_cap right"
proof -
  let ?n = "length es" and ?m = "length es div 2"
  from arr_split_copy [OF L R cap] obtain r where
    r: "arr_split_loop left right (int ?m) (int ?n - int ?m) 0 = Inr r"
    "arr_cap r = arr_cap right"
    and rh: "arr_holds (r\<lparr>arr_n := int ?n - int ?m\<rparr>) (drop ?m es)"
    by blast
  from n have lt: "?m < ?n" by linarith
  then have "0 < length (drop ?m es)" by simp
  from arr_holds_nth(1) [OF rh this] lt
  have k0: "arr_keys r ! 0 = Some (fst (es ! ?m))" by simp
  from rh lt have len: "0 < length (arr_keys r)"
    by (auto simp: arr_holds_def)
  have sep: "cell_read (arr_keys (r\<lparr>arr_n := int ?n - int ?m\<rparr>)) 0 = Inr (fst (es ! ?m))"
    using k0 len by (simp add: cell_read_def)
  have lh: "arr_holds (left\<lparr>arr_n := int ?m\<rparr>) (take ?m es)"
    using L by (intro arr_holds_take) simp_all
  have nL: "arr_n left = int ?n" and nR: "arr_n right = 0"
    using L R by (simp_all add: arr_holds_def)
  have mv: "int ?n - int ?m \<le> arr_cap right" using cap lt by linarith
  have "arr_ns_split left right
        = Inr (left\<lparr>arr_n := int ?m\<rparr>, r\<lparr>arr_n := int ?n - int ?m\<rparr>, fst (es ! ?m))"
    using nL nR mv r(1) sep
    by (simp add: arr_ns_split_def assert_def Let_def sdiv2_int)
  with lh rh r(2) show ?thesis by auto
qed

lemma lst_walk_drop:
  "i \<le> idx \<Longrightarrow> nat (idx - i) \<le> length cur \<Longrightarrow> lst_walk cur i idx = Inr (drop (nat (idx - i)) cur)"
proof (induction cur i idx rule: lst_walk.induct)
  case (1 cur i idx)
  show ?case
  proof (cases "i < idx")
    case False
    then have "lst_walk cur i idx = Inr cur"
      by (subst lst_walk.simps) simp
    with False 1(2) show ?thesis by simp
  next
    case True
    with 1(3) obtain c nx where c: "cur = c # nx" by (cases cur) auto
    from True have d: "nat (idx - i) = Suc (nat (idx - (i + 1)))" by linarith
    from True c 1(3) d have "lst_walk nx (i + 1) idx = Inr (drop (nat (idx - (i + 1))) nx)"
      by (intro 1(1)) auto
    with True c d show ?thesis
      by (subst lst_walk.simps) simp
  qed
qed

lemma lst_ns_split_ok:
  assumes L: "lst_holds left es" and n: "2 \<le> length es" and R: "lst_holds right []"
  shows "\<exists>l r. lst_ns_split left right = Inr (l, r, fst (es ! (length es div 2)))
           \<and> lst_holds l (take (length es div 2) es)
           \<and> lst_holds r (drop (length es div 2) es)
           \<and> lst_cap l = lst_cap left \<and> lst_cap r = lst_cap right"
proof -
  let ?n = "length es" and ?m = "length es div 2"
  from n have m: "1 \<le> ?m" "?m < ?n" by linarith+
  then have mid: "(if int ?m = 0 then 1 else int ?m) = int ?m" by simp
  have w: "lst_walk es 0 (int ?m) = Inr (drop ?m es)"
    using m lst_walk_drop [of 0 "int ?m" es] by simp
  from m obtain e rest where d: "drop ?m es = e # rest"
    by (cases "drop ?m es") auto
  then have e: "e = es ! ?m" using m
    by (metis Cons_nth_drop_Suc list.inject)
  from L R have f: "lst_n left = int ?n" "lst_head left = es" "lst_n right = 0"
    by (simp_all add: lst_holds_def)
  have "lst_ns_split left right
        = Inr (left\<lparr>lst_head := take ?m es, lst_n := int ?m\<rparr>,
               right\<lparr>lst_head := drop ?m es, lst_n := int ?n - int ?m\<rparr>, fst (es ! ?m))"
    using f w m d e
    by (simp add: lst_ns_split_def assert_def Let_def sdiv2_int mid split: prod.splits)
  moreover have "lst_holds (left\<lparr>lst_head := take ?m es, lst_n := int ?m\<rparr>) (take ?m es)"
    using m by (simp add: lst_holds_def)
  moreover have "lst_holds (right\<lparr>lst_head := drop ?m es, lst_n := int ?n - int ?m\<rparr>) (drop ?m es)"
    using m by (simp add: lst_holds_def of_nat_diff)
  ultimately show ?thesis by auto
qed


lemma sk1_split_walk_drop:
  "idx \<le> mid \<Longrightarrow> sk1_split_walk x idx mid = drop (nat (mid - idx)) x"
proof (induction x idx mid rule: sk1_split_walk.induct)
  case (1 x idx mid)
  show ?case
  proof (cases "x \<noteq> [] \<and> idx < mid")
    case False
    then have "sk1_split_walk x idx mid = x"
      by (subst sk1_split_walk.simps) auto
    moreover from False 1(2) have "drop (nat (mid - idx)) x = x"
      by (cases "x = []") auto
    ultimately show ?thesis by simp
  next
    case True
    then obtain c nx where c: "x = c # nx" by (cases x) auto
    from True have d: "nat (mid - idx) = Suc (nat (mid - (idx + 1)))" by linarith
    from True have "sk1_split_walk (skipnode_next0 x) (idx + 1) mid
                    = drop (nat (mid - (idx + 1))) (skipnode_next0 x)"
      by (intro 1(1)) auto
    with True c d show ?thesis
      by (subst sk1_split_walk.simps) (simp add: skipnode_next0_def)
  qed
qed

lemma sk1_collect_take:
  "i \<le> move \<Longrightarrow> nat (move - i) \<le> length cur \<Longrightarrow> sk1_collect cur i move = take (nat (move - i)) cur"
proof (induction cur i move rule: sk1_collect.induct)
  case (1 cur i move)
  show ?case
  proof (cases "i < move")
    case False
    then have "sk1_collect cur i move = []"
      by (subst sk1_collect.simps) simp
    with False 1(2) show ?thesis by simp
  next
    case True
    with 1(3) obtain k v nx where c: "cur = (k, v) # nx" by (cases cur) auto
    from True have d: "nat (move - i) = Suc (nat (move - (i + 1)))" by linarith
    from True c 1(3) d have "sk1_collect (skipnode_next0 cur) (i + 1) move
                    = take (nat (move - (i + 1))) (skipnode_next0 cur)"
      by (intro 1(1)) (auto simp: skipnode_next0_def)
    with True c d show ?thesis
      by (subst sk1_collect.simps)
        (simp add: skipnode_next0_def skipnode_key_def skipnode_val_def)
  qed
qed

lemma skiplist_erase2_head:
  assumes "\<forall>e \<in> set A. fst e < k" "sl_chain l = A @ (k, v) # rest"
  shows "skiplist_erase2 l k = l\<lparr>sl_chain := A @ rest, sl_n := sl_n l - 1\<rparr>"
proof -
  from assms have tw: "takeWhile (\<lambda>e. fst e < k) (sl_chain l) = A"
    and dw: "dropWhile (\<lambda>e. fst e < k) (sl_chain l) = (k, v) # rest"
    by (simp_all add: takeWhile_append2 dropWhile_append2)
  show ?thesis
    unfolding skiplist_erase2_def Let_def tw dw by simp
qed

lemma skiplist_insert2_last:
  assumes "\<forall>e \<in> set (sl_chain r). fst e < k"
  shows "skiplist_insert2 r k v = r\<lparr>sl_chain := sl_chain r @ [(k, v)], sl_n := sl_n r + 1\<rparr>"
proof -
  from assms have tw: "takeWhile (\<lambda>e. fst e < k) (sl_chain r) = sl_chain r"
    and dw: "dropWhile (\<lambda>e. fst e < k) (sl_chain r) = []"
    by simp_all
  show ?thesis
    unfolding skiplist_insert2_def Let_def tw dw by simp
qed

lemma sk1_move_ok:
  "sorted_wrt (<) (map fst (A @ kvs)) \<Longrightarrow> sorted_wrt (<) (map fst (R @ kvs))
   \<Longrightarrow> sl_chain l = A @ kvs \<Longrightarrow> sl_chain r = R
   \<Longrightarrow> sk1_move kvs l r
       = (l\<lparr>sl_chain := A, sl_n := sl_n l - int (length kvs)\<rparr>,
          r\<lparr>sl_chain := R @ kvs, sl_n := sl_n r + int (length kvs)\<rparr>)"
proof (induction kvs arbitrary: l r R)
  case Nil
  then show ?case by simp
next
  case (Cons kv kvs)
  obtain k v where kv: "kv = (k, v)" by (cases kv)
  from Cons.prems(1) kv have a: "\<forall>e \<in> set A. fst e < k"
    by (auto simp: sorted_wrt_append)
  from Cons.prems(2,4) kv have b: "\<forall>e \<in> set (sl_chain r). fst e < k"
    by (auto simp: sorted_wrt_append)
  let ?l = "l\<lparr>sl_chain := A @ kvs, sl_n := sl_n l - 1\<rparr>"
  let ?r = "r\<lparr>sl_chain := R @ [(k, v)], sl_n := sl_n r + 1\<rparr>"
  from Cons.prems(3) kv have e: "skiplist_erase2 l k = ?l"
    by (intro skiplist_erase2_head [OF a]) simp
  from Cons.prems(4) have i: "skiplist_insert2 r k v = ?r"
    using skiplist_insert2_last [OF b] by simp
  have s1: "sorted_wrt (<) (map fst (A @ kvs))"
    using Cons.prems(1) by (auto simp: sorted_wrt_append)
  have s2: "sorted_wrt (<) (map fst ((R @ [(k, v)]) @ kvs))"
    using Cons.prems(2) kv by simp
  have "sk1_move kvs ?l ?r
        = (?l\<lparr>sl_chain := A, sl_n := sl_n ?l - int (length kvs)\<rparr>,
           ?r\<lparr>sl_chain := (R @ [(k, v)]) @ kvs, sl_n := sl_n ?r + int (length kvs)\<rparr>)"
    by (rule Cons.IH [OF s1 s2]) simp_all
  with e i kv show ?case by simp
qed

lemma sk1_ns_split_ok:
  assumes L: "sk1_holds left es" and n: "2 \<le> length es" and R: "sk1_holds right []"
    and S: "sorted_wrt (<) (map fst es)"
  shows "\<exists>l r. sk1_ns_split left right = Inr (l, r, fst (es ! (length es div 2)))
           \<and> sk1_holds l (take (length es div 2) es)
           \<and> sk1_holds r (drop (length es div 2) es)
           \<and> sk1_cap l = sk1_cap left \<and> sk1_cap r = sk1_cap right"
proof -
  let ?n = "length es" and ?m = "length es div 2"
  from n have m: "1 \<le> ?m" "?m < ?n" by linarith+
  then have mid: "(if int ?m = 0 then 1 else int ?m) = int ?m" by simp
  have w: "sk1_split_walk es 0 (int ?m) = drop ?m es"
    using sk1_split_walk_drop [of 0 "int ?m" es] by simp
  from m obtain e rest where d: "drop ?m es = e # rest"
    by (cases "drop ?m es") auto
  then have e: "e = es ! ?m" using m
    by (metis Cons_nth_drop_Suc list.inject)
  have c: "sk1_collect (drop ?m es) 0 (int ?n - int ?m) = drop ?m es"
    using sk1_collect_take [of 0 "int ?n - int ?m" "drop ?m es"] m by simp
  from L R have f: "sl_n (sk1_sl left) = int ?n" "sl_chain (sk1_sl left) = es"
    "sl_n (sk1_sl right) = 0" "sl_chain (sk1_sl right) = []"
    by (simp_all add: sk1_holds_def)
  have s1: "sorted_wrt (<) (map fst (take ?m es @ drop ?m es))" using S by simp
  have s2: "sorted_wrt (<) (map fst ([] @ drop ?m es))"
    using S by (simp add: sorted_wrt_drop drop_map [symmetric])
  have mv: "sk1_move (drop ?m es) (sk1_sl left) (sk1_sl right)
        = ((sk1_sl left)\<lparr>sl_chain := take ?m es,
                           sl_n := sl_n (sk1_sl left) - int (length (drop ?m es))\<rparr>,
           (sk1_sl right)\<lparr>sl_chain := [] @ drop ?m es,
                            sl_n := sl_n (sk1_sl right) + int (length (drop ?m es))\<rparr>)"
    by (rule sk1_move_ok [OF s1 s2]) (simp_all add: f)
  let ?l = "left\<lparr>sk1_sl := (sk1_sl left)\<lparr>sl_chain := take ?m es,
                           sl_n := sl_n (sk1_sl left) - int (length (drop ?m es))\<rparr>\<rparr>"
  let ?r = "right\<lparr>sk1_sl := (sk1_sl right)\<lparr>sl_chain := [] @ drop ?m es,
                            sl_n := sl_n (sk1_sl right) + int (length (drop ?m es))\<rparr>\<rparr>"
  have m0: "?m \<noteq> 0" using m by simp
  have ne: "drop ?m es \<noteq> []" using d by simp
  have key: "skipnode_key (drop ?m es) = fst (es ! ?m)"
    using d e by (simp add: skipnode_key_def split: prod.splits)
  have mid2: "(if int ?n sdiv 2 = 0 then 1 else int ?n sdiv 2) = int ?m"
    using m0 by (simp add: sdiv2_int)
  have a1: "assert (skiplist_size (sk1_sl right) = 0) = Inr ()"
    using f(3) by (simp add: assert_def skiplist_size_def)
  have a2: "assert (drop ?m es \<noteq> []) = Inr ()"
    using ne by (simp add: assert_def)
  have "sk1_ns_split left right = Inr (?l, ?r, fst (es ! ?m))"
    unfolding sk1_ns_split_def Let_def skiplist_size_def [of "sk1_sl left"]
      skiplist_first_def f(1,2) mid2 w a1 a2 c mv key
    by simp
  moreover have "sk1_holds ?l (take ?m es)"
    using m f by (simp add: sk1_holds_def of_nat_diff)
  moreover have "sk1_holds ?r (drop ?m es)"
    using m f by (simp add: sk1_holds_def)
  ultimately show ?thesis by auto
qed


lemma skiplist_insert_last:
  assumes "\<forall>x \<in> set sl. x < k"
  shows "skiplist_insert sl k = sl @ [k]"
proof -
  from assms have tw: "takeWhile (\<lambda>x. x < k) sl = sl"
    and dw: "dropWhile (\<lambda>x. x < k) sl = []"
    by simp_all
  show ?thesis
    unfolding skiplist_insert_def Let_def tw dw by simp
qed

lemma skp_rebuild_loop_ok:
  assumes H: "arr_holds s es" and S: "sorted_wrt (<) (map fst es)"
  shows "i \<le> length es \<Longrightarrow> skp_rebuild_loop s (map fst (take i es)) (int i) = Inr (map fst es)"
proof (induction "length es - i" arbitrary: i)
  case 0
  then have i: "i = length es" by simp
  from H have "arr_n s = int (length es)" by (simp add: arr_holds_def)
  with i show ?case
    by (subst skp_rebuild_loop.simps) simp
next
  case (Suc d)
  then have i: "i < length es" by simp
  from H have n: "arr_n s = int (length es)" and len: "length es \<le> length (arr_keys s)"
    by (simp_all add: arr_holds_def)
  from arr_holds_nth(1) [OF H i] i len
  have rd: "cell_read (arr_keys s) (int i) = Inr (fst (es ! i))"
    by (simp add: cell_read_def)
  have ts: "take (Suc i) es = take i es @ [es ! i]"
    using i by (simp add: take_Suc_conv_app_nth)
  from S have "sorted_wrt (<) (map fst (take (Suc i) es))"
    by (simp add: sorted_wrt_take take_map [symmetric])
  then have "\<forall>x \<in> set (map fst (take i es)). x < fst (es ! i)"
    unfolding ts by (auto simp: sorted_wrt_append)
  then have ins: "skiplist_insert (map fst (take i es)) (fst (es ! i)) = map fst (take (Suc i) es)"
    unfolding ts by (simp add: skiplist_insert_last)
  from Suc(2) i have "skp_rebuild_loop s (map fst (take (Suc i) es)) (int (Suc i)) = Inr (map fst es)"
    by (intro Suc(1)) simp_all
  then have "skp_rebuild_loop s (map fst (take (Suc i) es)) (int i + 1) = Inr (map fst es)"
    by (simp add: add.commute)
  with i n rd ins show ?case
    by (subst skp_rebuild_loop.simps) simp
qed

lemma rebuild_skiplist_ok:
  assumes "arr_holds s es" "sorted_wrt (<) (map fst es)"
  shows "rebuild_skiplist_from_keys s = Inr (s\<lparr>skp_sl := map fst es\<rparr>)"
  using skp_rebuild_loop_ok [OF assms, of 0]
  by (simp add: rebuild_skiplist_from_keys_def)

lemma skp_ns_split_ok:
  assumes L: "arr_holds left es" and n: "2 \<le> length es" and R: "arr_holds right []"
    and S: "sorted_wrt (<) (map fst es)"
    and cap: "length es - length es div 2 \<le> nat (arr_cap right)"
  shows "\<exists>l r. skp_ns_split left right = Inr (l, r, fst (es ! (length es div 2)))
           \<and> skp_holds l (take (length es div 2) es)
           \<and> skp_holds r (drop (length es div 2) es)
           \<and> arr_cap l = arr_cap left \<and> arr_cap r = arr_cap right"
proof -
  let ?n = "length es" and ?m = "length es div 2"
  from n have m: "1 \<le> ?m" "?m < ?n" "?m \<noteq> 0" by linarith+
  from arr_split_copy [OF L R cap] obtain r where
    r: "arr_split_loop left right (int ?m) (int ?n - int ?m) 0 = Inr r"
    "arr_cap r = arr_cap right"
    and rh: "arr_holds (r\<lparr>arr_n := int ?n - int ?m\<rparr>) (drop ?m es)"
    by blast
  have lh: "arr_holds (left\<lparr>arr_n := int ?m\<rparr>) (take ?m es)"
    using L by (intro arr_holds_take) simp_all
  from L m have len: "?m < length (arr_keys left)" by (simp add: arr_holds_def)
  from arr_holds_nth(1) [OF L m(2)] len
  have sep: "cell_read (arr_keys left) (int ?m) = Inr (fst (es ! ?m))"
    by (simp add: cell_read_def)
  have sl: "sorted_wrt (<) (map fst (take ?m es))"
    using S by (simp add: sorted_wrt_take take_map [symmetric])
  have sr: "sorted_wrt (<) (map fst (drop ?m es))"
    using S by (simp add: sorted_wrt_drop drop_map [symmetric])
  note rbl = rebuild_skiplist_ok [OF lh sl]
  note rbr = rebuild_skiplist_ok [OF rh sr]
  have mid2: "(if int ?n sdiv 2 = 0 then 1 else int ?n sdiv 2) = int ?m"
    using m by (simp add: sdiv2_int)
  have a1: "assert (arr_n right = 0) = Inr ()"
    using R by (simp add: assert_def arr_holds_def)
  have a2: "assert (int ?n - int ?m \<ge> 1) = Inr ()"
    using m by (simp add: assert_def)
  have nL: "arr_n left = int ?n" using L by (simp add: arr_holds_def)
  have "skp_ns_split left right
        = Inr (left\<lparr>arr_n := int ?m, skp_sl := map fst (take ?m es)\<rparr>,
               r\<lparr>arr_n := int ?n - int ?m, skp_sl := map fst (drop ?m es)\<rparr>, fst (es ! ?m))"
    unfolding skp_ns_split_def Let_def nL mid2 a1 a2 sep r(1) rbind_simps rbl rbr
    by simp
  moreover have "skp_holds (left\<lparr>arr_n := int ?m, skp_sl := map fst (take ?m es)\<rparr>) (take ?m es)"
    using lh by (simp add: skp_holds_def arr_holds_def)
  moreover have "skp_holds (r\<lparr>arr_n := int ?n - int ?m, skp_sl := map fst (drop ?m es)\<rparr>) (drop ?m es)"
    using rh by (simp add: skp_holds_def arr_holds_def)
  ultimately show ?thesis using r(2) by auto
qed

lemma upto_int_upt: "[0..int n - 1] = map int [0..<n]"
proof (induction n)
  case 0
  then show ?case by simp
next
  case (Suc n)
  have "[0..int (Suc n) - 1] = [0..int n - 1] @ [int n]"
    using upto_rec2 [of 0 "int n"] by simp
  with Suc show ?case by simp
qed

lemma array_ops_simps:
  "op_size nodestore_array_ops (Array_store a) = Inr (arr_n a)"
  "op_capacity nodestore_array_ops (Array_store a) = Inr (arr_cap a)"
  "op_clear nodestore_array_ops (Array_store a) = Inr (Array_store (arr_ns_clear a))"
  "op_key_at nodestore_array_ops (Array_store a) i = arr_ns_key_at a i"
  "op_val_at nodestore_array_ops (Array_store a) i = arr_ns_val_at a i"
  "op_lower_bound nodestore_array_ops (Array_store a) k = arr_ns_lower_bound a k"
  "op_insert_at nodestore_array_ops (Array_store a) i k v
     = rbind (arr_ns_insert_at a i k v) (\<lambda>a'. Inr (Array_store a'))"
  "op_erase_at nodestore_array_ops (Array_store a) i
     = rbind (arr_ns_erase_at a i) (\<lambda>a'. Inr (Array_store a'))"
  "op_create nodestore_array_ops c = map_option Array_store (arr_ns_create c)"
  by (simp_all add: nodestore_array_ops_def as_array_def arr_ns_size_def arr_ns_capacity_def)

lemma arr_key_at_holds:
  assumes "arr_holds a es" "i < length es"
  shows "arr_ns_key_at a (int i) = Inr (fst (es ! i))"
proof -
  from assms have "i < length (arr_keys a)" "arr_n a = int (length es)"
    by (simp_all add: arr_holds_def)
  with arr_holds_nth(1) [OF assms] assms(2) show ?thesis
    by (simp add: arr_ns_key_at_def assert_def cell_read_def)
qed

lemma rmap_key_at_holds:
  assumes "arr_holds a es"
  shows "rmap (\<lambda>i. arr_ns_key_at a i) (map int [0..<length es]) = Inr (map fst es)"
proof -
  have "m \<le> length es \<Longrightarrow>
        rmap (\<lambda>i. arr_ns_key_at a i) (map int [length es - m..<length es])
        = Inr (map fst (drop (length es - m) es))" for m
  proof (induction m)
    case 0
    then show ?case by simp
  next
    case (Suc m)
    let ?j = "length es - Suc m"
    from Suc.prems have j: "?j < length es" "Suc ?j = length es - m" by linarith+
    then have u: "[?j..<length es] = ?j # [length es - m..<length es]"
      by (simp add: upt_conv_Cons)
    from j have d: "drop ?j es = es ! ?j # drop (length es - m) es"
      by (metis Cons_nth_drop_Suc)
    from Suc have IH: "rmap (\<lambda>i. arr_ns_key_at a i) (map int [length es - m..<length es])
        = Inr (map fst (drop (length es - m) es))" by simp
    have "rmap (\<lambda>i. arr_ns_key_at a i) (map int [?j..<length es])
          = rbind (arr_ns_key_at a (int ?j)) (\<lambda>y.
            rbind (rmap (\<lambda>i. arr_ns_key_at a i) (map int [length es - m..<length es]))
              (\<lambda>ys. Inr (y # ys)))"
      by (simp only: u list.map rmap.simps)
    also have "\<dots> = Inr (fst (es ! ?j) # map fst (drop (length es - m) es))"
      by (simp only: arr_key_at_holds [OF assms j(1)] IH rbind_simps)
    finally show ?case
      unfolding d by simp
  qed
  from this [of "length es"] show ?thesis by simp
qed

lemma arr_holds_clear:
  assumes "arr_holds a es"
  shows "arr_holds (arr_ns_clear a) []" "arr_cap (arr_ns_clear a) = arr_cap a"
  using assms by (simp_all add: arr_holds_def arr_ns_clear_def)

lemma arr_insert_append:
  assumes H: "arr_holds a es" and C: "length es < nat (arr_cap a)"
  shows "\<exists>a'. arr_ns_insert_at a (int (length es)) k v = Inr a'
           \<and> arr_holds a' (es @ [(k, v)]) \<and> arr_cap a' = arr_cap a"
proof -
  from H have n: "arr_n a = int (length es)" and lk: "length (arr_keys a) = nat (arr_cap a)"
    and lv: "length (arr_vals a) = nat (arr_cap a)"
    and tk: "take (length es) (arr_keys a) = map (\<lambda>e. Some (fst e)) es"
    and tv: "take (length es) (arr_vals a) = map (\<lambda>e. Some (snd e)) es"
    by (simp_all add: arr_holds_def)
  have sh: "arr_shift_up a (int (length es)) (int (length es)) = Inr a"
    by (subst arr_shift_up.simps) simp
  let ?a = "a\<lparr>arr_keys := (arr_keys a)[length es := Some k],
               arr_vals := (arr_vals a)[length es := Some v],
               arr_n := int (length es) + 1\<rparr>"
  have r: "arr_ns_insert_at a (int (length es)) k v = Inr ?a"
    using n lk lv C sh
    by (simp add: arr_ns_insert_at_def assert_def cell_write_def)
  have "take (Suc (length es)) ((arr_keys a)[length es := Some k])
        = map (\<lambda>e. Some (fst e)) (es @ [(k, v)])"
    using tk lk C by (simp add: take_Suc_conv_app_nth)
  moreover have "take (Suc (length es)) ((arr_vals a)[length es := Some v])
        = map (\<lambda>e. Some (snd e)) (es @ [(k, v)])"
    using tv lv C by (simp add: take_Suc_conv_app_nth)
  ultimately have "arr_holds ?a (es @ [(k, v)])"
    using lk lv C by (simp add: arr_holds_def)
  with r show ?thesis by auto
qed


lemma deref_Some:
  "p < length (nodes t) \<Longrightarrow> nodes t ! p = Some nd \<Longrightarrow> deref t (Some p) = Inr nd"
  by (simp add: deref_def)

lemma upd_node_Some:
  "p < length (nodes t) \<Longrightarrow> nodes t ! p = Some nd
   \<Longrightarrow> upd_node t (Some p) f = Inr (t\<lparr>nodes := (nodes t)[p := Some (f nd)]\<rparr>)"
  by (simp add: upd_node_def deref_def)

lemma upd_store_Some:
  "p < length (nodes t) \<Longrightarrow> nodes t ! p = Some nd \<Longrightarrow> g (store nd) = Inr s
   \<Longrightarrow> upd_store t (Some p) g = Inr (t\<lparr>nodes := (nodes t)[p := Some (nd\<lparr>store := s\<rparr>)]\<rparr>)"
  by (simp add: upd_store_def deref_def)

lemma buf_get_nth: "i < length xs \<Longrightarrow> buf_get xs (int i) = Inr (xs ! i)"
  by (simp add: buf_get_def)

lemma fill_loop:
  assumes "off + cnt \<le> length keys" "cnt \<le> nat (arr_cap a)"
  shows "j \<le> cnt \<Longrightarrow> p < length (nodes tt) \<Longrightarrow> nodes tt ! p = Some nd
    \<Longrightarrow> store nd = Array_store a0 \<Longrightarrow> arr_cap a0 = arr_cap a
    \<Longrightarrow> arr_holds a0 (map (\<lambda>k. (k, None)) (take j (drop off keys)))
    \<Longrightarrow> \<exists>a'. rfold (\<lambda>i s. rbind (buf_get keys (int off + i)) (\<lambda>k.
                    upd_store s (Some p) (\<lambda>st. op_insert_at nodestore_array_ops st i k None)))
                  (map int [j..<cnt]) tt
               = Inr (tt\<lparr>nodes := (nodes tt)[p := Some (nd\<lparr>store := Array_store a'\<rparr>)]\<rparr>)
             \<and> arr_holds a' (map (\<lambda>k. (k, None)) (take cnt (drop off keys)))
             \<and> arr_cap a' = arr_cap a"
proof (induction "cnt - j" arbitrary: j tt nd a0)
  case 0
  then have j: "j = cnt" by simp
  have e: "tt\<lparr>nodes := (nodes tt)[p := Some (nd\<lparr>store := Array_store a0\<rparr>)]\<rparr> = tt"
    using 0(3,4,5) by (simp add: list_update_same_conv)
  have "rfold (\<lambda>i s. rbind (buf_get keys (int off + i)) (\<lambda>k.
                    upd_store s (Some p) (\<lambda>st. op_insert_at nodestore_array_ops st i k None)))
                  (map int [j..<cnt]) tt
        = Inr (tt\<lparr>nodes := (nodes tt)[p := Some (nd\<lparr>store := Array_store a0\<rparr>)]\<rparr>)"
    unfolding e using j by simp
  with 0(6,7) j show ?case by blast
next
  case (Suc d)
  then have j: "j < cnt" by simp
  let ?es = "map (\<lambda>k. (k, None :: ptr)) (take j (drop off keys))"
  let ?k = "keys ! (off + j)"
  from j assms(1) have len: "length ?es = j" by simp
  from j assms(1) have bg: "buf_get keys (int off + int j) = Inr ?k"
    using buf_get_nth [of "off + j" keys] by simp
  from len j assms(2) Suc.prems(5) have "length ?es < nat (arr_cap a0)" by simp
  from arr_insert_append [OF Suc.prems(6) this, of ?k None] len
  obtain a1 where a1: "arr_ns_insert_at a0 (int j) ?k None = Inr a1"
    "arr_holds a1 (?es @ [(?k, None)])" "arr_cap a1 = arr_cap a0"
    by auto
  have tk: "?es @ [(?k, None)] = map (\<lambda>k. (k, None)) (take (Suc j) (drop off keys))"
    using j assms(1) by (simp add: take_Suc_conv_app_nth)
  let ?nd1 = "nd\<lparr>store := Array_store a1\<rparr>"
  let ?t1 = "tt\<lparr>nodes := (nodes tt)[p := Some ?nd1]\<rparr>"
  have us: "upd_store tt (Some p) (\<lambda>st. op_insert_at nodestore_array_ops st (int j) ?k None)
            = Inr ?t1"
    using Suc.prems(2,3,4) a1(1)
    by (intro upd_store_Some) (simp_all add: array_ops_simps)
  have u: "[j..<cnt] = j # [Suc j..<cnt]" using j by (simp add: upt_conv_Cons)
  have "\<exists>a'. rfold (\<lambda>i s. rbind (buf_get keys (int off + i)) (\<lambda>k.
                    upd_store s (Some p) (\<lambda>st. op_insert_at nodestore_array_ops st i k None)))
                  (map int [Suc j..<cnt]) ?t1
               = Inr (?t1\<lparr>nodes := (nodes ?t1)[p := Some (?nd1\<lparr>store := Array_store a'\<rparr>)]\<rparr>)
             \<and> arr_holds a' (map (\<lambda>k. (k, None)) (take cnt (drop off keys)))
             \<and> arr_cap a' = arr_cap a"
    using Suc(2) j Suc.prems(2) a1(2,3) Suc.prems(5) tk
    by (intro Suc(1)) simp_all
  then obtain a' where a': "rfold (\<lambda>i s. rbind (buf_get keys (int off + i)) (\<lambda>k.
                    upd_store s (Some p) (\<lambda>st. op_insert_at nodestore_array_ops st i k None)))
                  (map int [Suc j..<cnt]) ?t1
               = Inr (?t1\<lparr>nodes := (nodes ?t1)[p := Some (?nd1\<lparr>store := Array_store a'\<rparr>)]\<rparr>)"
    "arr_holds a' (map (\<lambda>k. (k, None)) (take cnt (drop off keys)))" "arr_cap a' = arr_cap a"
    by blast
  have "rfold (\<lambda>i s. rbind (buf_get keys (int off + i)) (\<lambda>k.
                    upd_store s (Some p) (\<lambda>st. op_insert_at nodestore_array_ops st i k None)))
                  (map int [j..<cnt]) tt
        = Inr (tt\<lparr>nodes := (nodes tt)[p := Some (nd\<lparr>store := Array_store a'\<rparr>)]\<rparr>)"
    unfolding u by (simp add: bg us a'(1))
  with a'(2,3) show ?case by blast
qed


lemma arr_create_holds:
  "0 < c \<Longrightarrow> \<exists>a. arr_ns_create c = Some a \<and> arr_holds a [] \<and> arr_cap a = c"
  by (simp add: arr_ns_create_def arr_holds_def)

lemma rbind_InrI: "m = Inr x \<Longrightarrow> f x = Inr r \<Longrightarrow> rbind m f = Inr r"
  by simp

lemma split_leaf_nodes_ok:
  assumes O: "ops t = nodestore_array_ops"
    and P: "p < length (nodes t)" "nodes t ! p = Some lf"
    and S: "store lf = Array_store a" and H: "arr_holds a es"
    and T: "max_keys t = int (length es) - 1" and C: "arr_cap a = int (length es)"
    and N: "2 \<le> length es"
  shows "\<exists>a1 a2. split_leaf_nodes t (Some p)
           = Inr (t\<lparr>nodes := (nodes t)[p := Some (lf\<lparr>store := Array_store a1,
                                                      nxt := Some (length (nodes t))\<rparr>)]
                         @ [Some \<lparr>is_leaf = 1, node_max_keys = max_keys t, parent = parent lf,
                                  nxt = nxt lf, child0 = None, store = Array_store a2\<rparr>]\<rparr>,
                  fst (es ! ((length es + 1) div 2)), Some (length (nodes t)))
         \<and> arr_holds a1 (map (\<lambda>k. (k, None)) (take ((length es + 1) div 2) (map fst es)))
         \<and> arr_holds a2 (map (\<lambda>k. (k, None)) (drop ((length es + 1) div 2) (map fst es)))
         \<and> arr_cap a1 = int (length es) \<and> arr_cap a2 = int (length es)"
proof -
  let ?n = "length es" and ?L = "length (nodes t)"
  let ?ls = "(length es + 1) div 2"
  let ?rs = "length es - (length es + 1) div 2"
  let ?keys = "map fst es"
  from N have ls: "?ls < ?n" "1 \<le> ?ls" "1 \<le> ?rs" "?ls + ?rs = ?n" by linarith+
  from H have na: "arr_n a = int ?n" by (simp add: arr_holds_def)
  have "0 < int ?n" using N by linarith
  from arr_create_holds [OF this] obtain a0 where
    a0: "arr_ns_create (int ?n) = Some a0" "arr_holds a0 []" "arr_cap a0 = int ?n"
    by blast
  let ?new = "\<lparr>is_leaf = 1, node_max_keys = max_keys t, parent = None,
                 nxt = None, child0 = None, store = Array_store a0\<rparr>"
  let ?t1 = "t\<lparr>nodes := nodes t @ [Some ?new]\<rparr>"
  have s5: "node_create t 1 = Inr (?t1, Some ?L)"
    using a0(1) by (simp add: node_create_def O T array_ops_simps)
  let ?new1 = "?new\<lparr>parent := parent lf\<rparr>"
  let ?t2 = "?t1\<lparr>nodes := (nodes ?t1)[?L := Some ?new1]\<rparr>"
  have s6: "upd_node ?t1 (Some ?L) (\<lambda>r. r\<lparr>parent := parent lf\<rparr>) = Inr ?t2"
    by (intro upd_node_Some) simp_all
  let ?lf1 = "lf\<lparr>store := Array_store (arr_ns_clear a)\<rparr>"
  let ?t3 = "?t2\<lparr>nodes := (nodes ?t2)[p := Some ?lf1]\<rparr>"
  have s7: "upd_store ?t2 (Some p) (op_clear nodestore_array_ops) = Inr ?t3"
    using P S by (intro upd_store_Some) (simp_all add: nth_append array_ops_simps)
  let ?new2 = "?new1\<lparr>store := Array_store (arr_ns_clear a0)\<rparr>"
  let ?t4 = "?t3\<lparr>nodes := (nodes ?t3)[?L := Some ?new2]\<rparr>"
  have s8: "upd_store ?t3 (Some ?L) (op_clear nodestore_array_ops) = Inr ?t4"
    using P by (intro upd_store_Some) (simp_all add: array_ops_simps)
  have "\<exists>a'. rfold (\<lambda>i s. rbind (buf_get ?keys (int 0 + i)) (\<lambda>k.
                    upd_store s (Some p) (\<lambda>st. op_insert_at nodestore_array_ops st i k None)))
                  (map int [0..<?ls]) ?t4
               = Inr (?t4\<lparr>nodes := (nodes ?t4)[p := Some (?lf1\<lparr>store := Array_store a'\<rparr>)]\<rparr>)
             \<and> arr_holds a' (map (\<lambda>k. (k, None)) (take ?ls (drop 0 ?keys)))
             \<and> arr_cap a' = arr_cap a"
    using P ls C arr_holds_clear [OF H]
    by (intro fill_loop [where ?a0.0 = "arr_ns_clear a"]) (simp_all add: nth_append)
  then obtain a1 where s9: "rfold (\<lambda>i s. rbind (buf_get ?keys i) (\<lambda>k.
                    upd_store s (Some p) (\<lambda>st. op_insert_at nodestore_array_ops st i k None)))
                  (map int [0..<?ls]) ?t4
               = Inr (?t4\<lparr>nodes := (nodes ?t4)[p := Some (?lf1\<lparr>store := Array_store a1\<rparr>)]\<rparr>)"
    and a1: "arr_holds a1 (map (\<lambda>k. (k, None)) (take ?ls ?keys))" "arr_cap a1 = int ?n"
    using C by auto
  let ?lf2 = "?lf1\<lparr>store := Array_store a1\<rparr>"
  let ?t5 = "?t4\<lparr>nodes := (nodes ?t4)[p := Some ?lf2]\<rparr>"
  have "\<exists>a'. rfold (\<lambda>i s. rbind (buf_get ?keys (int ?ls + i)) (\<lambda>k.
                    upd_store s (Some ?L) (\<lambda>st. op_insert_at nodestore_array_ops st i k None)))
                  (map int [0..<?rs]) ?t5
               = Inr (?t5\<lparr>nodes := (nodes ?t5)[?L := Some (?new2\<lparr>store := Array_store a'\<rparr>)]\<rparr>)
             \<and> arr_holds a' (map (\<lambda>k. (k, None)) (take ?rs (drop ?ls ?keys)))
             \<and> arr_cap a' = arr_cap a0"
    using P ls a0 arr_holds_clear [OF a0(2)]
    by (intro fill_loop [where ?a0.0 = "arr_ns_clear a0"]) (simp_all add: nth_append)
  then obtain a2 where s10: "rfold (\<lambda>i s. rbind (buf_get ?keys (int ?ls + i)) (\<lambda>k.
                    upd_store s (Some ?L) (\<lambda>st. op_insert_at nodestore_array_ops st i k None)))
                  (map int [0..<?rs]) ?t5
               = Inr (?t5\<lparr>nodes := (nodes ?t5)[?L := Some (?new2\<lparr>store := Array_store a2\<rparr>)]\<rparr>)"
    and a2: "arr_holds a2 (map (\<lambda>k. (k, None)) (drop ?ls ?keys))" "arr_cap a2 = int ?n"
    using a0(3) ls by auto
  let ?new3 = "?new2\<lparr>store := Array_store a2\<rparr>"
  let ?t6 = "?t5\<lparr>nodes := (nodes ?t5)[?L := Some ?new3]\<rparr>"
  have s11: "deref ?t6 (Some p) = Inr ?lf2"
    using P by (intro deref_Some) (simp_all add: nth_append)
  let ?new4 = "?new3\<lparr>nxt := nxt lf\<rparr>"
  let ?t7 = "?t6\<lparr>nodes := (nodes ?t6)[?L := Some ?new4]\<rparr>"
  have s12: "upd_node ?t6 (Some ?L) (\<lambda>r. r\<lparr>nxt := nxt lf\<rparr>) = Inr ?t7"
    using P by (intro upd_node_Some) simp_all
  let ?lf3 = "?lf2\<lparr>nxt := Some ?L\<rparr>"
  let ?t8 = "?t7\<lparr>nodes := (nodes ?t7)[p := Some ?lf3]\<rparr>"
  have s13: "upd_node ?t7 (Some p) (\<lambda>l. l\<lparr>nxt := Some ?L\<rparr>) = Inr ?t8"
    using P by (intro upd_node_Some) (simp_all add: nth_append)
  have s14: "deref ?t8 (Some ?L) = Inr ?new4"
    using P by (intro deref_Some) simp_all
  have "0 < length (map (\<lambda>k. (k, None :: ptr)) (drop ?ls ?keys))" using ls by simp
  from arr_key_at_holds [OF a2(1) this] ls
  have s15: "arr_ns_key_at a2 0 = Inr (fst (es ! ?ls))" by simp
  have s1: "deref t (Some p) = Inr lf" using P by (rule deref_Some)
  have ka: "op_key_at nodestore_array_ops (Array_store a) = arr_ns_key_at a"
    by (rule ext) (simp add: array_ops_simps)
  have s4: "rmap (\<lambda>i. op_key_at (ops t) (store lf) i) [0..int ?n - 1] = Inr ?keys"
    unfolding upto_int_upt O S ka by (rule rmap_key_at_holds [OF H])
  have i1: "(int ?n + 1) sdiv 2 = int ?ls"
    using sdiv2_int [of "?n + 1"] by (simp add: add.commute)
  have i2: "[0..int ?ls - 1] = map int [0..<?ls]" by (rule upto_int_upt)
  have i3: "int ?n - int ?ls = int ?rs" using ls by linarith
  have i4: "[0..int ?rs - 1] = map int [0..<?rs]" by (rule upto_int_upt)
  have e8: "?t8 = t\<lparr>nodes := (nodes t)[p := Some (lf\<lparr>store := Array_store a1, nxt := Some ?L\<rparr>)]
                         @ [Some \<lparr>is_leaf = 1, node_max_keys = max_keys t, parent = parent lf,
                                  nxt = nxt lf, child0 = None, store = Array_store a2\<rparr>]\<rparr>"
    using P by (simp add: list_update_append)
  have "split_leaf_nodes t (Some p) = Inr (?t8, fst (es ! ?ls), Some ?L)"
    unfolding split_leaf_nodes_def
    apply (rule rbind_InrI [OF s1])
    apply (rule rbind_InrI [where x = "int ?n"])
     apply (simp add: O S array_ops_simps na)
    apply (rule rbind_InrI [where x = "()"])
     apply (simp add: assert_def T)
    apply (unfold Let_def i1 i3 i2 i4)
    apply (rule rbind_InrI [OF s4])
    apply (rule rbind_InrI [OF s5])
    apply (unfold prod.case O)
    apply (rule rbind_InrI [OF s6])
    apply (rule rbind_InrI [OF s7])
    apply (rule rbind_InrI [OF s8])
    apply (rule rbind_InrI [OF s9])
    apply (rule rbind_InrI [OF s10])
    apply (rule rbind_InrI [OF s11])
    apply (rule rbind_InrI [where x = "?t7"])
     apply (simp add: s12 [simplified])
    apply (rule rbind_InrI [OF s13])
    apply (rule rbind_InrI [OF s14])
    apply (rule rbind_InrI [where x = "fst (es ! ?ls)"])
     apply (simp add: array_ops_simps s15)
    apply simp
    done
  with e8 a1 a2 show ?thesis by auto
qed


lemma node_key_list_holds:
  assumes O: "ops t = nodestore_array_ops"
    and P: "q < length (nodes t)" "nodes t ! q = Some nd"
    and S: "store nd = Array_store b" and H: "arr_holds b es"
  shows "node_key_list t (Some q) = Inr (map fst es)"
proof -
  have ka: "op_key_at nodestore_array_ops (Array_store b) = arr_ns_key_at b"
    by (rule ext) (simp add: array_ops_simps)
  from H have n: "arr_n b = int (length es)" by (simp add: arr_holds_def)
  have r: "rmap (\<lambda>i. op_key_at (ops t) (store nd) i) [0..int (length es) - 1] = Inr (map fst es)"
    unfolding upto_int_upt O S ka by (rule rmap_key_at_holds [OF H])
  show ?thesis
    unfolding node_key_list_def
    apply (rule rbind_InrI [OF deref_Some [OF P]])
    apply (rule rbind_InrI [where x = "int (length es)"])
     apply (simp add: node_keys_def O S array_ops_simps n)
    apply (rule r)
    done
qed

subsection \<open>No operation stops at the capacity assertion\<close>

text \<open>
  Every function of both versions of bptree.c is followed through with the list of sizes:
  the reads never meet the assertion, and each write changes one size in a known way.
\<close>

lemma okv_Inr [simp]: "okv (Inr x) Q = Q x"
  by (simp add: okv_def)

lemma okv_Inl [simp]: "okv (Inl e) Q = (e \<noteq> Capacity_assert)"
  by (simp add: okv_def)

lemma okv_bind: "okv m Q \<Longrightarrow> (\<And>x. Q x \<Longrightarrow> okv (f x) R) \<Longrightarrow> okv (rbind m f) R"
  by (cases m) (auto simp: okv_def)

lemma okv_weaken: "okv m Q \<Longrightarrow> (\<And>x. Q x \<Longrightarrow> R x) \<Longrightarrow> okv m R"
  by (cases m) (auto simp: okv_def)

lemma okv_nocap: "nocap m \<Longrightarrow> okv m (\<lambda>_. True)"
  by (cases m) (auto simp: okv_def nocap_def)

lemma okv_nocap_bind: "nocap m \<Longrightarrow> (\<And>x. okv (f x) R) \<Longrightarrow> okv (rbind m f) R"
  by (cases m) (auto simp: okv_def nocap_def)

lemma okv_val: "nocap m \<Longrightarrow> okv m (\<lambda>x. m = Inr x)"
  by (cases m) (auto simp: okv_def nocap_def)

lemma nocap_Inr [simp]: "nocap (Inr x)"
  by (simp add: nocap_def)

lemma nocap_Inl [simp]: "nocap (Inl e) = (e \<noteq> Capacity_assert)"
  by (simp add: nocap_def)

lemma nocap_rbind: "nocap m \<Longrightarrow> (\<And>x. m = Inr x \<Longrightarrow> nocap (f x)) \<Longrightarrow> nocap (rbind m f)"
  by (cases m) (auto simp: nocap_def)

lemma nocap_okv: "okv m Q \<Longrightarrow> nocap m"
  by (simp add: okv_def nocap_def)

lemma nocap_assert [simp]: "nocap (assert b)"
  by (simp add: assert_def)

lemma nocap_cell [simp]:
  "nocap (cell_read xs i)" "nocap (cell_write xs i c)" "nocap (cell_get xs i)"
  by (simp_all add: cell_read_def cell_write_def cell_get_def split: option.splits)

lemma nocap_buf_get [simp]: "nocap (buf_get xs i)"
  by (simp add: buf_get_def)

lemma okv_shift_up:
  "okv (arr_shift_up s i idx) (\<lambda>s'. arr_n s' = arr_n s \<and> arr_cap s' = arr_cap s)"
proof (induction s i idx rule: arr_shift_up.induct)
  case (1 s i idx)
  show ?case
  proof (cases "i > idx")
    case False
    then show ?thesis by (subst arr_shift_up.simps) simp
  next
    case True
    show ?thesis
      apply (subst arr_shift_up.simps)
      apply (simp only: True if_True)
      apply (rule okv_nocap_bind, simp)
      apply (rule okv_bind [OF okv_val], simp)
      apply (rule okv_nocap_bind, simp)
      apply (rule okv_bind [OF okv_val], simp)
      apply (rule okv_weaken)
       apply (rule 1 [OF True])
      apply simp
      done
  qed
qed

lemma okv_shift_down:
  "okv (arr_shift_down s i) (\<lambda>s'. arr_n s' = arr_n s \<and> arr_cap s' = arr_cap s)"
proof (induction s i rule: arr_shift_down.induct)
  case (1 s i)
  show ?case
  proof (cases "i < arr_n s - 1")
    case False
    then show ?thesis by (subst arr_shift_down.simps) simp
  next
    case True
    show ?thesis
      apply (subst arr_shift_down.simps)
      apply (simp only: True if_True)
      apply (rule okv_nocap_bind, simp)
      apply (rule okv_bind [OF okv_val], simp)
      apply (rule okv_nocap_bind, simp)
      apply (rule okv_bind [OF okv_val], simp)
      apply (rule okv_weaken)
       apply (rule 1 [OF True])
      apply simp
      done
  qed
qed

lemma okv_arr_insert:
  "arr_n s < arr_cap s \<Longrightarrow>
   okv (arr_ns_insert_at s idx k v) (\<lambda>s'. arr_n s' = arr_n s + 1 \<and> arr_cap s' = arr_cap s)"
  unfolding arr_ns_insert_at_def
  apply (rule okv_nocap_bind, simp)
  apply simp
  apply (rule okv_bind [OF okv_shift_up])
  apply (rule okv_nocap_bind, simp)
  apply (rule okv_nocap_bind, simp)
  apply simp
  done

lemma okv_arr_erase:
  "okv (arr_ns_erase_at s idx) (\<lambda>s'. arr_n s' = arr_n s - 1 \<and> arr_cap s' = arr_cap s)"
  unfolding arr_ns_erase_at_def
  apply (rule okv_nocap_bind, simp)
  apply (rule okv_bind [OF okv_shift_down])
  apply simp
  done

lemma nocap_arr_lb: "nocap (arr_lb_loop ks k l r)"
proof (induction ks k l r rule: arr_lb_loop.induct)
  case (1 ks k l r)
  show ?case
  proof (cases "l < r")
    case False
    then show ?thesis by (subst arr_lb_loop.simps) simp
  next
    case True
    show ?thesis
      apply (subst arr_lb_loop.simps)
      apply (simp only: True if_True Let_def)
      apply (rule nocap_rbind, simp)
      subgoal for km
        using 1 [OF True refl, of km] by (auto split: if_splits)
      done
  qed
qed

lemma nocap_arr_reads [simp]:
  "nocap (arr_ns_key_at s i)" "nocap (arr_ns_val_at s i)" "nocap (arr_ns_lower_bound s k)"
  by (auto simp: arr_ns_key_at_def arr_ns_val_at_def arr_ns_lower_bound_def nocap_arr_lb
      intro!: nocap_rbind)

lemma wfM_ops: "wfM M t \<Longrightarrow> ops t = nodestore_array_ops"
  and wfM_max: "wfM M t \<Longrightarrow> max_keys t = M - 1"
  and wfM_order: "wfM M t \<Longrightarrow> order_M t = M"
  by (simp_all add: wfM_def)

lemma wfM_root [simp]: "wfM M (t\<lparr>root := r\<rparr>) = wfM M t"
  by (simp add: wfM_def)

lemma szs_root [simp]: "szs (t\<lparr>root := r\<rparr>) = szs t"
  by (simp add: szs_def)

lemma length_szs [simp]: "length (szs t) = length (nodes t)"
  by (simp add: szs_def)

lemma nocap_deref [simp]: "nocap (deref t p)"
  by (simp add: deref_def split: option.splits)

lemma deref_wf:
  assumes "wfM M t" "deref t p = Inr nd"
  shows "\<exists>q a. p = Some q \<and> q < length (nodes t) \<and> nodes t ! q = Some nd
           \<and> store nd = Array_store a \<and> arr_cap a = M \<and> node_max_keys nd = M - 1
           \<and> szs t ! q = arr_n a"
proof -
  from assms(2) obtain q where q: "p = Some q" "q < length (nodes t)" "nodes t ! q = Some nd"
    by (auto simp: deref_def split: option.splits if_splits)
  from assms(1) q have "store_ok M (Some nd)"
    by (auto simp: wfM_def list_all_length)
  then obtain a where "store nd = Array_store a" "arr_cap a = M" "node_max_keys nd = M - 1"
    by (auto simp: store_ok_def split: NodeStore.splits)
  with q show ?thesis
    by (auto simp: szs_def cell_size_def)
qed

lemma okv_deref:
  "wfM M t \<Longrightarrow> okv (deref t p) (\<lambda>nd. \<exists>q a. p = Some q \<and> q < length (nodes t)
           \<and> nodes t ! q = Some nd
           \<and> store nd = Array_store a \<and> arr_cap a = M \<and> node_max_keys nd = M - 1
           \<and> szs t ! q = arr_n a)"
  using deref_wf [of M t p] nocap_deref [of t p]
  by (cases "deref t p") (auto simp: okv_def nocap_def)

lemma wfM_update:
  assumes "wfM M t" "store_ok M c"
  shows "wfM M (t\<lparr>nodes := (nodes t)[q := c]\<rparr>)"
proof -
  have "list_all (store_ok M) ((nodes t)[q := c])"
    using assms set_update_subset_insert [of "nodes t" q c]
    by (auto simp: wfM_def list_all_iff)
  with assms(1) show ?thesis by (simp add: wfM_def)
qed

lemma szs_update: "szs (t\<lparr>nodes := (nodes t)[q := c]\<rparr>) = (szs t)[q := cell_size c]"
  by (simp add: szs_def map_update)

lemma okv_upd_node:
  assumes wf: "wfM M t"
    and f: "\<And>nd. store (f nd) = store nd \<and> node_max_keys (f nd) = node_max_keys nd"
  shows "okv (upd_node t p f) (\<lambda>t'. wfM M t' \<and> szs t' = szs t)"
  unfolding upd_node_def
proof (rule okv_bind [OF okv_deref [OF wf]])
  fix nd
  assume "\<exists>q a. p = Some q \<and> q < length (nodes t) \<and> nodes t ! q = Some nd
           \<and> store nd = Array_store a \<and> arr_cap a = M \<and> node_max_keys nd = M - 1
           \<and> szs t ! q = arr_n a"
  then obtain q a where q: "p = Some q" "q < length (nodes t)" "nodes t ! q = Some nd"
    "store nd = Array_store a" "arr_cap a = M" "node_max_keys nd = M - 1" "szs t ! q = arr_n a"
    by blast
  have ok: "store_ok M (Some (f nd))"
    using q f by (simp add: store_ok_def)
  have cs: "cell_size (Some (f nd)) = szs t ! q"
    using q f by (simp add: cell_size_def)
  show "okv (Inr (t\<lparr>nodes := (nodes t)[the p := Some (f nd)]\<rparr>))
          (\<lambda>t'. wfM M t' \<and> szs t' = szs t)"
    using wfM_update [OF wf ok, of q] q(1,2) cs
    by (simp add: szs_update list_update_same_conv)
qed

lemma okv_set_parent_if:
  assumes "wfM M t"
  shows "okv (set_parent_if t c x) (\<lambda>t'. wfM M t' \<and> szs t' = szs t)"
  unfolding set_parent_if_def
  using assms by (cases c) (auto intro!: okv_upd_node)

lemma okv_upd_store:
  assumes wf: "wfM M t"
    and g: "\<And>a q. p = Some q \<Longrightarrow> q < length (nodes t) \<Longrightarrow> szs t ! q = arr_n a \<Longrightarrow> arr_cap a = M
           \<Longrightarrow> okv (g (Array_store a))
                 (\<lambda>s'. \<exists>a'. s' = Array_store a' \<and> arr_cap a' = M \<and> arr_n a' = h (arr_n a))"
  shows "okv (upd_store t p g)
           (\<lambda>t'. wfM M t' \<and> (\<exists>q. p = Some q \<and> q < length (nodes t)
                               \<and> szs t' = (szs t)[q := h (szs t ! q)]))"
  unfolding upd_store_def
proof (rule okv_bind [OF okv_deref [OF wf]])
  fix nd
  assume "\<exists>q a. p = Some q \<and> q < length (nodes t) \<and> nodes t ! q = Some nd
           \<and> store nd = Array_store a \<and> arr_cap a = M \<and> node_max_keys nd = M - 1
           \<and> szs t ! q = arr_n a"
  then obtain q a where q: "p = Some q" "q < length (nodes t)" "nodes t ! q = Some nd"
    "store nd = Array_store a" "arr_cap a = M" "node_max_keys nd = M - 1" "szs t ! q = arr_n a"
    by blast
  show "okv (rbind (g (store nd))
               (\<lambda>s'. Inr (t\<lparr>nodes := (nodes t)[the p := Some (nd\<lparr>store := s'\<rparr>)]\<rparr>)))
          (\<lambda>t'. wfM M t' \<and> (\<exists>q. p = Some q \<and> q < length (nodes t)
                               \<and> szs t' = (szs t)[q := h (szs t ! q)]))"
    unfolding q(4)
  proof (rule okv_bind [OF g [OF q(1) q(2) q(7) q(5)]])
    fix s'
    assume "\<exists>a'. s' = Array_store a' \<and> arr_cap a' = M \<and> arr_n a' = h (arr_n a)"
    then obtain a' where a': "s' = Array_store a'" "arr_cap a' = M" "arr_n a' = h (arr_n a)"
      by blast
    have ok: "store_ok M (Some (nd\<lparr>store := s'\<rparr>))"
      using a' q by (simp add: store_ok_def)
    have cs: "cell_size (Some (nd\<lparr>store := s'\<rparr>)) = h (szs t ! q)"
      using a' q by (simp add: cell_size_def)
    show "okv (Inr (t\<lparr>nodes := (nodes t)[the p := Some (nd\<lparr>store := s'\<rparr>)]\<rparr>))
          (\<lambda>t'. wfM M t' \<and> (\<exists>q. p = Some q \<and> q < length (nodes t)
                               \<and> szs t' = (szs t)[q := h (szs t ! q)]))"
      using wfM_update [OF wf ok, of q] q(1,2) cs
      by (simp add: szs_update)
  qed
qed

lemma okv_op_insert:
  "arr_n a < arr_cap a \<Longrightarrow>
   okv (op_insert_at nodestore_array_ops (Array_store a) i k v)
     (\<lambda>s'. \<exists>a'. s' = Array_store a' \<and> arr_cap a' = arr_cap a \<and> arr_n a' = arr_n a + 1)"
  apply (simp add: nodestore_array_ops_def as_array_def)
  apply (rule okv_bind [OF okv_arr_insert])
   apply simp_all
  done

lemma okv_op_erase:
  "okv (op_erase_at nodestore_array_ops (Array_store a) i)
     (\<lambda>s'. \<exists>a'. s' = Array_store a' \<and> arr_cap a' = arr_cap a \<and> arr_n a' = arr_n a - 1)"
  apply (simp add: nodestore_array_ops_def as_array_def)
  apply (rule okv_bind [OF okv_arr_erase])
  apply simp_all
  done

lemma okv_insert_node:
  assumes "wfM M t" and "\<And>q. p = Some q \<Longrightarrow> q < length (nodes t) \<Longrightarrow> szs t ! q < M"
  shows "okv (upd_store t p (\<lambda>s. op_insert_at nodestore_array_ops s i k v))
           (\<lambda>t'. wfM M t' \<and> (\<exists>q. p = Some q \<and> q < length (nodes t)
                               \<and> szs t' = (szs t)[q := szs t ! q + 1]))"
  apply (rule okv_upd_store [OF assms(1), where h = "\<lambda>n. n + 1"])
  apply (rule okv_weaken [OF okv_op_insert])
  using assms(2) by auto

lemma okv_erase_node:
  assumes "wfM M t"
  shows "okv (upd_store t p (\<lambda>s. op_erase_at nodestore_array_ops s i))
           (\<lambda>t'. wfM M t' \<and> (\<exists>q. p = Some q \<and> q < length (nodes t)
                               \<and> szs t' = (szs t)[q := szs t ! q - 1]))"
  apply (rule okv_upd_store [OF assms(1), where h = "\<lambda>n. n - 1"])
  apply (rule okv_weaken [OF okv_op_erase])
  by auto

lemma okv_clear_node:
  assumes "wfM M t"
  shows "okv (upd_store t p (op_clear nodestore_array_ops))
           (\<lambda>t'. wfM M t' \<and> (\<exists>q. p = Some q \<and> q < length (nodes t)
                               \<and> szs t' = (szs t)[q := 0]))"
  apply (rule okv_upd_store [OF assms(1), where h = "\<lambda>n. 0"])
  by (simp add: nodestore_array_ops_def as_array_def arr_ns_clear_def)

lemma okv_node_create:
  assumes "wfM M t" "0 < M"
  shows "okv (node_create t lf)
           (\<lambda>(t', r). wfM M t' \<and> szs t' = szs t @ [0] \<and> r = Some (length (nodes t)))"
  using assms
  by (auto simp: node_create_def wfM_def nodestore_array_ops_def arr_ns_create_def
      store_ok_def szs_def cell_size_def)

lemma okv_node_destroy:
  assumes "wfM M t"
  shows "okv (node_destroy t x)
           (\<lambda>t'. wfM M t' \<and> (case x of None \<Rightarrow> szs t' = szs t
                               | Some q \<Rightarrow> szs t' = (szs t)[q := 0]))"
proof (cases x)
  case None
  with assms show ?thesis by (simp add: node_destroy_def)
next
  case (Some q)
  show ?thesis
    unfolding node_destroy_def Some
    apply simp
    apply (rule okv_nocap_bind, simp)
    apply (simp add: szs_update cell_size_def)
    apply (rule wfM_update [OF assms])
    apply (simp add: store_ok_def)
    done
qed

lemma okv_rfold:
  assumes "I 0 s0"
    and "\<And>j s. j < length xs \<Longrightarrow> I j s \<Longrightarrow> okv (f (xs ! j) s) (I (Suc j))"
  shows "okv (rfold f xs s0) (I (length xs))"
  using assms
proof (induction xs arbitrary: s0 I)
  case Nil
  then show ?case by simp
next
  case (Cons x xs)
  have a: "okv (f x s0) (I (Suc 0))"
    using Cons.prems(2) [of 0 s0] Cons.prems(1) by simp
  have b: "okv (rfold f xs s1) (I (Suc (length xs)))" if "I (Suc 0) s1" for s1
    using Cons.IH [of "\<lambda>j. I (Suc j)" s1] that Cons.prems(2) by force
  from a b show ?case
    by (auto intro: okv_bind)
qed

lemma inb_bump [simp]: "inb (bump p h xs) p' = inb xs p'"
  by (simp add: inb_def bump_def split: option.splits)

lemma sz_at_bump [simp]:
  "sz_at (bump p h xs) p' = (if p' = p \<and> inb xs p then h (sz_at xs p) else sz_at xs p')"
  by (auto simp: inb_def bump_def sz_at_def nth_list_update split: option.splits)

lemma inb_snoc [simp]: "inb (xs @ [a]) p = (inb xs p \<or> p = Some (length xs))"
  by (auto simp: inb_def split: option.splits)

lemma sz_at_snoc [simp]:
  "sz_at (xs @ [a]) p = (if p = Some (length xs) then a else sz_at xs p)"
  by (auto simp: sz_at_def nth_append split: option.splits)

lemma inb_fresh [simp]: "\<not> inb xs (Some (length xs))"
  by (simp add: inb_def)

lemma sz_at_fresh [simp]: "sz_at xs (Some (length xs)) = 0"
  by (simp add: sz_at_def)

lemma inb_fresh_nodes [simp]: "\<not> inb (szs t) (Some (length (nodes t)))"
  by (simp add: inb_def)

lemma sz_at_fresh_nodes [simp]: "sz_at (szs t) (Some (length (nodes t))) = 0"
  by (simp add: sz_at_def)

lemma bump_bump: "bump p g (bump p h xs) = bump p (\<lambda>s. g (h s)) xs"
proof (cases p)
  case None
  then show ?thesis by (simp add: bump_def)
next
  case (Some a)
  then show ?thesis
    by (cases "a < length xs") (simp_all add: bump_def list_update_beyond)
qed

lemma bump_id [simp]: "bump p (\<lambda>s. s) xs = xs"
  by (cases p) (auto simp: bump_def)

lemma length_bump [simp]: "length (bump p h xs) = length xs"
  by (cases p) (auto simp: bump_def)

lemma okv_deref2:
  "wfM M t \<Longrightarrow>
   okv (deref t p) (\<lambda>nd. store_ok M (Some nd) \<and> is_arr nd
                         \<and> cell_size (Some nd) = sz_at (szs t) p \<and> inb (szs t) p)"
  apply (rule okv_weaken [OF okv_deref], assumption)
  apply (auto simp: store_ok_def is_arr_def cell_size_def sz_at_def inb_def)
  done

lemma node_size: "is_arr nd \<Longrightarrow> op_size nodestore_array_ops (store nd) = Inr (cell_size (Some nd))"
  by (auto simp: is_arr_def cell_size_def array_ops_simps split: NodeStore.splits)

lemma node_keys_ok:
  "ops t = nodestore_array_ops \<Longrightarrow> is_arr nd \<Longrightarrow> node_keys t nd = Inr (cell_size (Some nd))"
  by (simp add: node_keys_def node_size)

lemma node_overflow_ok:
  "ops t = nodestore_array_ops \<Longrightarrow> is_arr nd \<Longrightarrow> store_ok M (Some nd) \<Longrightarrow>
   node_overflow t nd = Inr (M - 1 < cell_size (Some nd))"
  by (auto simp: node_overflow_def node_keys_ok store_ok_def split: NodeStore.splits)

lemma nocap_op_reads [simp]:
  "nocap (op_size nodestore_array_ops s)"
  "nocap (op_key_at nodestore_array_ops s i)"
  "nocap (op_val_at nodestore_array_ops s i)"
  "nocap (op_lower_bound nodestore_array_ops s k)"
  by (cases s; simp add: nodestore_array_ops_def as_array_def arr_ns_size_def)+

lemma okv_insert_node2:
  "wfM M t \<Longrightarrow> sz_at (szs t) p < M \<Longrightarrow>
   okv (upd_store t p (\<lambda>s. op_insert_at nodestore_array_ops s i k v))
     (\<lambda>t'. wfM M t' \<and> szs t' = bump p (\<lambda>s. s + 1) (szs t) \<and> inb (szs t) p)"
  apply (rule okv_weaken [OF okv_insert_node], assumption)
   apply (simp add: sz_at_def)
  apply (auto simp: bump_def inb_def)
  done

lemma okv_erase_node2:
  "wfM M t \<Longrightarrow>
   okv (upd_store t p (\<lambda>s. op_erase_at nodestore_array_ops s i))
     (\<lambda>t'. wfM M t' \<and> szs t' = bump p (\<lambda>s. s - 1) (szs t) \<and> inb (szs t) p)"
  apply (rule okv_weaken [OF okv_erase_node], assumption)
  apply (auto simp: bump_def inb_def)
  done

lemma okv_clear_node2:
  "wfM M t \<Longrightarrow>
   okv (upd_store t p (op_clear nodestore_array_ops))
     (\<lambda>t'. wfM M t' \<and> szs t' = bump p (\<lambda>s. 0) (szs t) \<and> inb (szs t) p)"
  apply (rule okv_weaken [OF okv_clear_node], assumption)
  apply (auto simp: bump_def inb_def)
  done

lemma okv_node_destroy2:
  "wfM M t \<Longrightarrow> okv (node_destroy t x) (\<lambda>t'. wfM M t' \<and> szs t' = bump x (\<lambda>s. 0) (szs t))"
  apply (rule okv_weaken [OF okv_node_destroy], assumption)
  apply (auto simp: bump_def split: option.splits)
  done

lemma okv_store_set_key:
  assumes "ops t = nodestore_array_ops" "arr_n a \<le> arr_cap a"
  shows "okv (store_set_key t (Array_store a) idx k)
           (\<lambda>(s', r). \<exists>a'. s' = Array_store a' \<and> arr_cap a' = arr_cap a \<and> arr_n a' = arr_n a)"
  unfolding store_set_key_def assms(1)
  apply (simp add: array_ops_simps(1))
  apply (intro impI)
  apply (rule okv_nocap_bind, simp)
  apply (rule okv_bind [OF okv_op_erase])
  apply clarsimp
  apply (rule okv_bind [OF okv_op_insert])
   apply (use assms(2) in simp)
  apply clarsimp
  done

lemma okv_set_key_of:
  assumes wf: "wfM M t" and sz: "sz_at (szs t) p \<le> M"
  shows "okv (set_key_of t p idx k) (\<lambda>t'. wfM M t' \<and> szs t' = szs t)"
  unfolding set_key_of_def
  apply (rule okv_weaken [OF okv_upd_store [OF wf, where h = "\<lambda>s. s"]])
   apply (rule okv_bind [OF okv_store_set_key [OF wfM_ops [OF wf]]])
  using sz apply (simp add: sz_at_def)
   apply clarsimp
  apply clarsimp
  done

lemma okv_insert_loop:
  assumes body: "\<And>x tt. wfM M tt \<Longrightarrow> sz_at (szs tt) p < M \<Longrightarrow>
          okv (f x tt) (\<lambda>tt'. wfM M tt' \<and> szs tt' = bump p (\<lambda>s. s + 1) (szs tt))"
  shows "wfM M t \<Longrightarrow> sz_at (szs t) p + int (length xs) \<le> M \<Longrightarrow>
         okv (rfold f xs t) (\<lambda>t'. wfM M t' \<and> szs t' = bump p (\<lambda>s. s + int (length xs)) (szs t))"
proof (induction xs arbitrary: t)
  case Nil
  then show ?case by simp
next
  case (Cons x xs)
  show ?case
    apply simp
    apply (rule okv_bind [OF body [OF Cons.prems(1)]])
    using Cons.prems(2) apply simp
    apply (rule okv_weaken)
     apply (rule Cons.IH)
      apply simp
    using Cons.prems(2) apply simp
    apply (clarsimp simp: bump_bump)
    apply (rule arg_cong [where f = "\<lambda>h. bump p h (szs t)"])
    apply (rule ext)
    apply simp
    done
qed

lemma bnd_wf: "bnd M t \<Longrightarrow> wfM M t"
  by (simp add: bnd_def)

lemma bnd_sz: "bnd M t \<Longrightarrow> sz_at (szs t) p \<le> M - 1"
  by (simp add: bnd_def)

lemma okv_new_root:
  assumes b: "bnd M t" and M: "3 \<le> M"
  shows "okv (new_root t l k r) (bnd M)"
proof -
  note wf = bnd_wf [OF b]
  show ?thesis
    unfolding new_root_def wfM_ops [OF wf]
    apply (rule okv_bind [OF okv_node_create [OF wf]])
    using M apply simp
    apply clarsimp
    apply (rule okv_bind [OF okv_upd_node], assumption, simp, clarsimp)
    apply (rule okv_bind [OF okv_upd_node], assumption, simp, clarsimp)
    apply (rule okv_bind [OF okv_insert_node2], assumption)
    using M apply simp
    apply clarsimp
    apply (rule okv_bind [OF okv_upd_node], assumption, simp, clarsimp)
    using b M apply (auto simp: bnd_def)
    done
qed

lemma bnd_but_wf: "bnd_but M t x \<Longrightarrow> wfM M t"
  by (simp add: bnd_but_def)

lemma bnd_bnd_but: "bnd M t \<Longrightarrow> bnd_but M t x"
  by (simp add: bnd_def bnd_but_def)

lemma okv_assert_bind: "(b \<Longrightarrow> okv (f ()) R) \<Longrightarrow> okv (rbind (assert b) f) R"
  by (cases b) (simp_all add: assert_def)

lemma nocap_rmap: "(\<And>x. nocap (f x)) \<Longrightarrow> nocap (rmap f xs)"
  by (induction xs) (auto intro!: nocap_rbind)

lemma nocap_rmap_reads [simp]:
  "nocap (rmap (\<lambda>i. op_key_at nodestore_array_ops s i) xs)"
  "nocap (rmap (\<lambda>i. op_val_at nodestore_array_ops s i) xs)"
  "nocap (rmap (op_key_at nodestore_array_ops s) xs)"
  "nocap (rmap (op_val_at nodestore_array_ops s) xs)"
  by (simp_all add: nocap_rmap)

lemma okv_split_leaf_nodes:
  assumes b: "bnd_but M t leaf" and M: "3 \<le> M"
  shows "okv (split_leaf_nodes t leaf) (\<lambda>(t', sep, right). bnd M t')"
proof -
  note wf = bnd_but_wf [OF b]
  have h1: "(M + 1) sdiv 2 = (M + 1) div 2"
    using M by (simp add: sdiv2_nonneg)
  show ?thesis
    using b M wf
    unfolding split_leaf_nodes_def wfM_ops [OF wf] wfM_max [OF wf] Let_def
    apply -
    apply (rule okv_bind [OF okv_deref2], assumption)
    apply (clarsimp simp: node_size)
    apply (rule okv_assert_bind)
    apply (rule okv_nocap_bind, simp)
    apply (rule okv_bind [OF okv_node_create], assumption, simp)
    apply clarsimp
    apply (rule okv_bind [OF okv_upd_node], assumption, simp, clarsimp)
    apply (rule okv_bind [OF okv_clear_node2], assumption, clarsimp)
    apply (rule okv_bind [OF okv_clear_node2], assumption, clarsimp)
    apply (rule okv_bind [OF okv_insert_loop [rotated, where p = leaf]], assumption)
      apply (simp add: sdiv2_nonneg)
     apply (rule okv_nocap_bind, simp)
     apply (rule okv_weaken [OF okv_insert_node2], assumption, assumption, simp)
    apply clarsimp
    apply (rule okv_bind [OF okv_insert_loop [rotated, where p = "Some (length (nodes t))"]],
        assumption)
      apply (simp add: sdiv2_nonneg)
     apply (rule okv_nocap_bind, simp)
     apply (rule okv_weaken [OF okv_insert_node2], assumption, assumption, simp)
    apply clarsimp
    apply (rule okv_bind [OF okv_deref2], assumption, clarsimp)
    apply (rule okv_bind [OF okv_upd_node], assumption, simp, clarsimp)
    apply (rule okv_bind [OF okv_upd_node], assumption, simp, clarsimp)
    apply (rule okv_bind [OF okv_deref2], assumption, clarsimp)
    apply (rule okv_nocap_bind, simp)
    apply (auto simp: bnd_def bnd_but_def sdiv2_nonneg)
    done
qed

lemma nocap_child_index_loop [simp]: "nocap (child_index_loop nodestore_array_ops s c xs)"
  by (induction xs) (auto intro!: nocap_rbind)

lemma nocap_parent_child_index:
  "ops t = nodestore_array_ops \<Longrightarrow> nocap (parent_child_index t par c)"
  by (auto simp: parent_child_index_def intro!: nocap_rbind)

lemma nocap_parent_child_at:
  "ops t = nodestore_array_ops \<Longrightarrow> nocap (parent_child_at t par i)"
  by (auto simp: parent_child_at_def intro!: nocap_rbind)

lemma nocap_first_leaf_loop [simp]: "nocap (first_leaf_loop f t cur)"
  by (induction f arbitrary: cur) (auto intro!: nocap_rbind split: option.splits)

lemma nocap_subtree_first_key:
  "ops t = nodestore_array_ops \<Longrightarrow> nocap (subtree_first_key t x)"
  by (auto simp: subtree_first_key_def simp del: first_leaf_loop.simps intro!: nocap_rbind)

lemma nocap_find_leaf_loop:
  "ops t = nodestore_array_ops \<Longrightarrow> nocap (find_leaf_loop f t k x)"
  by (induction f arbitrary: x) (auto intro!: nocap_rbind split: option.splits)

lemma nocap_find_leaf_loop_code:
  "ops t = nodestore_array_ops \<Longrightarrow> nocap (find_leaf_loop_code f t k x)"
  by (induction f arbitrary: x) (auto intro!: nocap_rbind split: option.splits)

lemma nocap_leaf_find:
  "ops t = nodestore_array_ops \<Longrightarrow> nocap (leaf_find t lf k)"
  by (auto simp: leaf_find_def intro!: nocap_rbind)

lemma nocap_siblings:
  "ops t = nodestore_array_ops \<Longrightarrow> nocap (siblings t par i)"
  by (auto simp: siblings_def nocap_parent_child_at intro!: nocap_rbind)

lemma okv_node_overflow:
  "wfM M t \<Longrightarrow> store_ok M (Some nd) \<Longrightarrow> is_arr nd \<Longrightarrow>
   okv (node_overflow t nd) (\<lambda>ov. ov = (M - 1 < cell_size (Some nd)))"
  by (simp add: node_overflow_ok [of t nd M] wfM_ops)

lemma okv_insert_parent_body:
  "wfM M tt \<Longrightarrow> sz_at (szs tt) p < M \<Longrightarrow>
   okv (rbind (upd_store tt p (\<lambda>s. op_insert_at nodestore_array_ops s i k c))
          (\<lambda>tt1. set_parent_if tt1 c' x))
     (\<lambda>tt'. wfM M tt' \<and> szs tt' = bump p (\<lambda>s. s + 1) (szs tt))"
  apply (rule okv_bind [OF okv_insert_node2], assumption, assumption)
  apply clarsimp
  apply (rule okv_weaken [OF okv_set_parent_if], assumption)
  apply simp
  done

lemma okv_split_internal_nodes:
  assumes b: "bnd_but M t x" and M: "3 \<le> M"
  shows "okv (split_internal_nodes t x) (\<lambda>(t', sep, right). bnd M t')"
proof -
  note wf = bnd_but_wf [OF b]
  show ?thesis
    using b M wf
    unfolding split_internal_nodes_def wfM_ops [OF wf] wfM_max [OF wf] Let_def
    apply -
    apply (rule okv_bind [OF okv_deref2], assumption)
    apply (clarsimp simp: node_size)
    apply (rule okv_assert_bind)
    apply (rule okv_nocap_bind, simp)
    apply (rule okv_nocap_bind, simp)
    apply (rule okv_bind [OF okv_node_create], assumption, simp)
    apply clarsimp
    apply (rule okv_bind [OF okv_upd_node], assumption, simp, clarsimp)
    apply (rule okv_bind [OF okv_clear_node2], assumption, clarsimp)
    apply (rule okv_nocap_bind, simp)
    apply (rule okv_bind [OF okv_upd_node], assumption, simp, clarsimp)
    apply (rule okv_bind [OF okv_set_parent_if], assumption, clarsimp)
    apply (rule okv_bind [OF okv_insert_loop [rotated, where p = x]], assumption)
      apply (simp add: sdiv2_nonneg; arith)
     apply (rule okv_nocap_bind, simp)
     apply (rule okv_nocap_bind, simp)
     apply (rule okv_insert_parent_body, assumption, assumption)
    apply clarsimp
    apply (rule okv_nocap_bind, simp)
    apply (rule okv_bind [OF okv_upd_node], assumption, simp, clarsimp)
    apply (rule okv_bind [OF okv_set_parent_if], assumption, clarsimp)
    apply (rule okv_bind [OF okv_insert_loop [rotated, where p = "Some (length (nodes t))"]],
        assumption)
      apply (simp add: sdiv2_nonneg; arith)
     apply (rule okv_nocap_bind, simp)
     apply (rule okv_nocap_bind, simp)
     apply (rule okv_insert_parent_body, assumption, assumption)
    apply clarsimp
    apply (rule okv_nocap_bind)
     apply (rule nocap_subtree_first_key)
     apply (simp add: wfM_ops)
    apply (auto simp: bnd_def bnd_but_def sdiv2_nonneg)
    done
qed

lemma okv_split_internal_nodes_code:
  assumes b: "bnd_but M t x" and M: "3 \<le> M"
  shows "okv (split_internal_nodes_code t x) (\<lambda>(t', sep, right). bnd M t')"
proof -
  note wf = bnd_but_wf [OF b]
  show ?thesis
    using b M wf
    unfolding split_internal_nodes_code_def wfM_ops [OF wf] wfM_max [OF wf] Let_def
    apply -
    apply (rule okv_bind [OF okv_deref2], assumption)
    apply (clarsimp simp: node_size)
    apply (rule okv_assert_bind)
    apply (rule okv_nocap_bind, simp)
    apply (rule okv_nocap_bind, simp)
    apply (rule okv_nocap_bind, simp)
    apply (rule okv_bind [OF okv_node_create], assumption, simp)
    apply clarsimp
    apply (rule okv_bind [OF okv_upd_node], assumption, simp, clarsimp)
    apply (rule okv_bind [OF okv_clear_node2], assumption, clarsimp)
    apply (rule okv_nocap_bind, simp)
    apply (rule okv_bind [OF okv_upd_node], assumption, simp, clarsimp)
    apply (rule okv_bind [OF okv_set_parent_if], assumption, clarsimp)
    apply (rule okv_bind [OF okv_insert_loop [rotated, where p = x]], assumption)
      apply (simp add: sdiv2_nonneg; arith)
     apply (rule okv_nocap_bind, simp)
     apply (rule okv_nocap_bind, simp)
     apply (rule okv_insert_parent_body, assumption, assumption)
    apply clarsimp
    apply (rule okv_nocap_bind, simp)
    apply (rule okv_bind [OF okv_upd_node], assumption, simp, clarsimp)
    apply (rule okv_bind [OF okv_set_parent_if], assumption, clarsimp)
    apply (rule okv_bind [OF okv_insert_loop [rotated, where p = "Some (length (nodes t))"]],
        assumption)
      apply (simp add: sdiv2_nonneg; arith)
     apply (rule okv_nocap_bind, simp)
     apply (rule okv_nocap_bind, simp)
     apply (rule okv_insert_parent_body, assumption, assumption)
    apply (auto simp: bnd_def bnd_but_def sdiv2_nonneg)
    done
qed

lemma okv_insert_into_parent:
  "bnd M t \<Longrightarrow> 3 \<le> M \<Longrightarrow> okv (insert_into_parent f t l k r) (bnd M)"
proof (induction f arbitrary: t l k r)
  case 0
  then show ?case by simp
next
  case (Suc f)
  note wf = bnd_wf [OF Suc.prems(1)]
  show ?case
    using Suc.prems wf
    unfolding insert_into_parent.simps wfM_ops [OF wf] Let_def
    apply -
    apply (rule okv_bind [OF okv_deref2], assumption)
    apply (clarsimp simp: okv_new_root)
    apply (rule okv_nocap_bind)
     apply (rule nocap_parent_child_index, simp add: wfM_ops)
    apply (rule okv_assert_bind)
    apply (rule okv_bind [OF okv_insert_node2], assumption)
     apply (simp add: bnd_def)
    apply clarsimp
    apply (rule okv_bind [OF okv_upd_node], assumption, simp, clarsimp)
    apply (rule okv_bind [OF okv_deref2], assumption, clarsimp)
    apply (rule okv_bind [OF okv_node_overflow], assumption, assumption, assumption)
    apply (clarsimp simp del: insert_into_parent.simps)
    apply (intro conjI impI)
     apply (rule okv_bind [OF okv_split_internal_nodes [where M = M]])
       apply (simp add: bnd_but_def bnd_def)
      apply assumption
     apply (clarsimp simp del: insert_into_parent.simps)
     apply (rule Suc.IH, assumption, assumption)
    apply (auto simp: bnd_def)
    done
qed

lemma okv_insert_into_parent_code:
  "bnd M t \<Longrightarrow> 3 \<le> M \<Longrightarrow> okv (insert_into_parent_code f t l k r) (bnd M)"
proof (induction f arbitrary: t l k r)
  case 0
  then show ?case by simp
next
  case (Suc f)
  note wf = bnd_wf [OF Suc.prems(1)]
  show ?case
    using Suc.prems wf
    unfolding insert_into_parent_code.simps wfM_ops [OF wf] Let_def
    apply -
    apply (rule okv_bind [OF okv_deref2], assumption)
    apply (clarsimp simp: okv_new_root)
    apply (rule okv_bind [OF okv_deref2], assumption)
    apply (clarsimp simp: node_size split del: if_split)
    apply (rule okv_nocap_bind, simp)
    apply (rule okv_assert_bind)
    apply (rule okv_bind [OF okv_insert_node2], assumption)
     apply (simp add: bnd_def)
    apply clarsimp
    apply (rule okv_bind [OF okv_upd_node], assumption, simp, clarsimp)
    apply (rule okv_bind [OF okv_deref2], assumption, clarsimp)
    apply (rule okv_bind [OF okv_node_overflow], assumption, assumption, assumption)
    apply (clarsimp simp del: insert_into_parent_code.simps)
    apply (intro conjI impI)
     apply (rule okv_bind [OF okv_split_internal_nodes_code [where M = M]])
       apply (simp add: bnd_but_def bnd_def)
      apply assumption
     apply (clarsimp simp del: insert_into_parent_code.simps)
     apply (rule Suc.IH, assumption, assumption)
    apply (auto simp: bnd_def)
    done
qed

lemma okv_split_leaf:
  "bnd_but M t leaf \<Longrightarrow> 3 \<le> M \<Longrightarrow> okv (split_leaf f t leaf) (bnd M)"
  unfolding split_leaf_def
  apply (rule okv_bind [OF okv_split_leaf_nodes], assumption, assumption)
  apply clarsimp
  apply (rule okv_insert_into_parent, assumption, assumption)
  done

lemma okv_split_leaf_code:
  "bnd_but M t leaf \<Longrightarrow> 3 \<le> M \<Longrightarrow> okv (split_leaf_code f t leaf) (bnd M)"
  unfolding split_leaf_code_def
  apply (rule okv_bind [OF okv_split_leaf_nodes], assumption, assumption)
  apply clarsimp
  apply (rule okv_insert_into_parent_code, assumption, assumption)
  done

lemma okv_update_parent_sep:
  assumes wf: "wfM M t" and sz: "\<forall>p. sz_at (szs t) p \<le> M"
  shows "okv (update_parent_sep_if_needed t x) (\<lambda>t'. wfM M t' \<and> szs t' = szs t)"
proof (cases "x = None")
  case True
  then show ?thesis using wf by (simp add: update_parent_sep_if_needed_def)
next
  case False
  note ops = wfM_ops [OF wf]
  have rd: "nocap (if is_leaf xn \<noteq> 0 then
                   rbind (op_size nodestore_array_ops (store xn)) (\<lambda>n.
                   if n \<le> 0 then Inr None
                   else rbind (op_key_at nodestore_array_ops (store xn) 0) (\<lambda>k. Inr (Some k)))
                 else rbind (subtree_first_key t x) (\<lambda>k. Inr (Some k)))" for xn
    by (auto intro!: nocap_rbind nocap_subtree_first_key simp: ops)
  show ?thesis
    using wf sz False
    unfolding update_parent_sep_if_needed_def ops Let_def
    apply (simp only: if_False)
    apply (rule okv_nocap_bind, simp)
    subgoal for xn
      apply (cases "parent xn = None")
       apply simp
      apply (simp only: if_False)
      apply (rule okv_nocap_bind [OF rd])
      subgoal for nmin_opt
        apply (cases nmin_opt)
         apply simp
        apply (simp only: option.case)
        apply (rule okv_nocap_bind)
         apply (rule nocap_parent_child_index [OF ops])
        apply (auto intro!: okv_set_key_of)
        done
      done
    done
qed

lemma bnd_le: "bnd M t \<Longrightarrow> sz_at (szs t) p \<le> M"
  using bnd_sz [of M t p] by simp

lemma okv_bptree_insert:
  assumes b: "bndo M th" and M: "3 \<le> M"
  shows "okv (bptree_insert th k) (bndo M)"
proof (cases th)
  case None
  then show ?thesis by (simp add: bptree_insert_def bndo_def)
next
  case (Some t)
  with b have bt: "bnd M t" by (simp add: bndo_def)
  note wf = bnd_wf [OF bt]
  note ops = wfM_ops [OF wf]
  show ?thesis
  proof (cases "root t = None")
    case True
    with bt Some show ?thesis by (simp add: bptree_insert_def bndo_def)
  next
    case False
    show ?thesis
      using bt M wf
      unfolding bptree_insert_def Some ops find_leaf_def option.case if_not_P [OF False]
      apply -
      apply (rule okv_nocap_bind)
       apply (rule nocap_find_leaf_loop [OF ops])
      apply (rule okv_assert_bind)
      apply (rule okv_bind [OF okv_deref2], assumption)
      apply clarsimp
      apply (rule okv_nocap_bind)
       apply (rule nocap_leaf_find [OF ops])
      apply (clarsimp simp: bndo_def)
      apply (rule okv_bind [OF okv_insert_node2], assumption)
       apply (simp add: bnd_def)
      apply clarsimp
      apply (rule okv_bind [OF okv_deref2], assumption, clarsimp)
      apply (rule okv_bind [OF okv_node_overflow], assumption, assumption, assumption)
      apply (clarsimp split del: if_split)
      apply (rule okv_bind [where Q = "bnd M"])
       apply (split if_split, intro conjI impI)
        apply (rule okv_split_leaf)
         apply (simp add: bnd_but_def bnd_def)
        apply assumption
       apply (simp add: bnd_def)
      apply (rule okv_bind [OF okv_update_parent_sep [where M = M]])
        apply (simp add: bnd_def)
       apply (simp add: bnd_le)
      apply (simp add: bnd_def bndo_def)
      done
  qed
qed

lemma okv_bptree_insert_code:
  assumes b: "bndo M th" and M: "3 \<le> M"
  shows "okv (bptree_insert_code th k) (bndo M)"
proof (cases th)
  case None
  then show ?thesis by (simp add: bptree_insert_code_def bndo_def)
next
  case (Some t)
  with b have bt: "bnd M t" by (simp add: bndo_def)
  note wf = bnd_wf [OF bt]
  note ops = wfM_ops [OF wf]
  show ?thesis
  proof (cases "root t = None")
    case True
    with bt Some show ?thesis by (simp add: bptree_insert_code_def bndo_def)
  next
    case False
    show ?thesis
      using bt M wf
      unfolding bptree_insert_code_def Some ops find_leaf_code_def option.case if_not_P [OF False]
      apply -
      apply (rule okv_nocap_bind)
       apply (rule nocap_find_leaf_loop_code [OF ops])
      apply (rule okv_assert_bind)
      apply (rule okv_bind [OF okv_deref2], assumption)
      apply clarsimp
      apply (rule okv_nocap_bind)
       apply (rule nocap_leaf_find [OF ops])
      apply (clarsimp simp: bndo_def)
      apply (rule okv_bind [OF okv_insert_node2], assumption)
       apply (simp add: bnd_def)
      apply clarsimp
      apply (rule okv_bind [OF okv_deref2], assumption, clarsimp)
      apply (rule okv_bind [OF okv_node_overflow], assumption, assumption, assumption)
      apply (clarsimp split del: if_split)
      apply (split if_split, intro conjI impI)
       apply (rule okv_bind [OF okv_split_leaf_code [where M = M]])
         apply (simp add: bnd_but_def bnd_def)
        apply assumption
       apply (simp add: bndo_def)
      apply (simp add: bnd_def bndo_def)
      done
  qed
qed

lemma bnd_pos: "bnd M t \<Longrightarrow> 0 < M"
  using bnd_sz [of M t None] by (simp add: sz_at_def)

lemma bnd_mono:
  assumes "bnd M t" "wfM M t'"
    and "\<And>p. sz_at (szs t') p \<le> sz_at (szs t) p \<or> sz_at (szs t') p \<le> M - 1"
  shows "bnd M t'"
  unfolding bnd_def
proof (intro conjI allI)
  fix p
  from assms(3) [of p] bnd_sz [OF assms(1), of p] show "sz_at (szs t') p \<le> M - 1"
    by linarith
qed (rule assms(2))

lemma okv_fix_root_loop:
  "bnd M t \<Longrightarrow> okv (fix_root_loop f t) (bnd M)"
proof (induction f arbitrary: t)
  case 0
  then show ?case by simp
next
  case (Suc f)
  note wf = bnd_wf [OF Suc.prems(1)]
  note ops = wfM_ops [OF wf]
  show ?case
  proof (cases "root t")
    case None
    then show ?thesis using Suc.prems by simp
  next
    case (Some a)
    show ?thesis
      using Suc.prems wf
      unfolding fix_root_loop.simps Some option.case ops Let_def
      apply -
      apply (rule okv_bind [OF okv_deref2], assumption)
      apply (clarsimp simp: node_size simp del: fix_root_loop.simps)
      apply (rule okv_bind [OF okv_set_parent_if], assumption)
      apply (clarsimp simp del: fix_root_loop.simps)
      apply (rule okv_bind [OF okv_node_destroy2 [where M = M]])
       apply simp
      apply (rule Suc.IH)
      apply (rule bnd_mono [where t = t], assumption, simp)
      apply simp
      done
  qed
qed

lemma okv_bptree_delete_code:
  assumes b: "bndo M th"
  shows "okv (bptree_delete_code th k) (bndo M)"
proof (cases th)
  case None
  then show ?thesis by (simp add: bptree_delete_code_def bndo_def)
next
  case (Some t)
  with b have bt: "bnd M t" by (simp add: bndo_def)
  note wf = bnd_wf [OF bt]
  note ops = wfM_ops [OF wf]
  show ?thesis
  proof (cases "root t = None")
    case True
    with bt Some show ?thesis by (simp add: bptree_delete_code_def bndo_def)
  next
    case False
    show ?thesis
      using bt wf
      unfolding bptree_delete_code_def Some ops find_leaf_code_def option.case if_not_P [OF False]
      apply -
      apply (rule okv_nocap_bind)
       apply (rule nocap_find_leaf_loop_code [OF ops])
      subgoal for leaf
        apply (cases "leaf = None")
         apply (simp add: bndo_def)
        apply (simp only: if_False)
        apply (rule okv_bind [OF okv_deref2], assumption)
        apply (rule okv_nocap_bind)
         apply (rule nocap_leaf_find [OF ops])
        apply (clarsimp simp: bndo_def simp del: fix_root_loop.simps)
        apply (rule okv_bind [OF okv_erase_node2], assumption)
        apply (rule okv_bind [OF okv_fix_root_loop [where M = M]])
         apply (rule bnd_mono [where t = t], assumption, simp)
         apply simp
        apply (simp add: bndo_def)
        done
      done
  qed
qed

lemma okv_bptree_create:
  "okv (bptree_create M0 None) (\<lambda>t. bnd (max M0 3) t \<and> order_M t = max M0 3)"
proof -
  let ?M = "if M0 < 3 then 3 else M0"
  let ?t0 = "\<lparr>order_M = ?M, max_keys = ?M - 1, ops = nodestore_array_ops, root = None,
              nodes = []\<rparr>"
  have wf: "wfM ?M ?t0"
    by (simp add: wfM_def)
  have m: "max M0 3 = ?M"
    by simp
  show ?thesis
    unfolding bptree_create_def nodestore_get_ops_def NODESTORE_ARRAY_def m Let_def
    apply (simp only: option.case if_True simp_thms)
    apply (rule okv_bind [OF okv_node_create [OF wf]])
     apply simp
    apply (clarsimp simp: bnd_def wfM_order)
    apply (auto simp: sz_at_def szs_def nth_Cons' split: option.splits if_splits)
    done
qed

lemma bnd_allb: "bnd M t = (wfM M t \<and> allb (M - 1) (szs t))"
  by (simp add: bnd_def allb_def)

lemma allb_at: "allb B xs \<Longrightarrow> sz_at xs p \<le> B"
  by (simp add: allb_def)

lemma allb_mono: "allb B xs \<Longrightarrow> B \<le> B' \<Longrightarrow> allb B' xs"
  by (auto simp: allb_def intro: order_trans)

lemma allb_bump: "allb B xs \<Longrightarrow> (inb xs q \<Longrightarrow> h (sz_at xs q) \<le> B) \<Longrightarrow> allb B (bump q h xs)"
  by (simp add: allb_def)

lemma allb_bump_dec: "allb B xs \<Longrightarrow> (\<And>s. s \<le> B \<Longrightarrow> h s \<le> B) \<Longrightarrow> allb B (bump q h xs)"
  by (simp add: allb_def)

lemma okv_set_key_of_allb:
  "wfM M t \<Longrightarrow> allb M (szs t) \<Longrightarrow>
   okv (set_key_of t p idx k) (\<lambda>t'. wfM M t' \<and> szs t' = szs t)"
  by (rule okv_set_key_of) (simp_all add: allb_at)

lemma okv_borrow_from_left_leaf:
  assumes b: "bnd M t" and M: "3 \<le> M" and x: "sz_at (szs t) leaf \<le> M - 2"
  shows "okv (borrow_from_left_leaf t leaf left i)
           (\<lambda>(t', r). (r = 0 \<longrightarrow> t' = t \<and> sz_at (szs t) left \<le> M div 2)
                     \<and> (r \<noteq> 0 \<longrightarrow> bnd M t'))"
proof -
  note wf = bnd_wf [OF b]
  have m: "min_leaf_keys t = M div 2"
    using M by (simp add: min_leaf_keys_def wfM_max [OF wf] sdiv2_nonneg)
  show ?thesis
    using b [unfolded bnd_allb] M x wf bnd_sz [OF b, of left]
    unfolding borrow_from_left_leaf_def wfM_ops [OF wf] m
    apply -
    apply (rule okv_bind [OF okv_deref2], assumption)
    apply (clarsimp simp: node_size)
    apply (rule okv_nocap_bind, simp)
    apply (rule okv_bind [OF okv_erase_node2], assumption, clarsimp)
    apply (rule okv_bind [OF okv_insert_node2], assumption)
     apply simp
    apply clarsimp
    apply (rule okv_bind [OF okv_deref2], assumption, clarsimp)
    apply (rule okv_nocap_bind, simp)
    apply (rule okv_bind [OF okv_set_key_of_allb [where M = M]], assumption)
     apply simp
     apply (rule allb_bump, rule allb_bump_dec, erule allb_mono, simp, simp, simp)
    apply (clarsimp simp: bnd_allb)
    apply (rule allb_bump, rule allb_bump_dec, assumption, simp, simp)
    done
qed

lemma okv_borrow_from_right_leaf:
  assumes b: "bnd M t" and M: "3 \<le> M" and x: "sz_at (szs t) leaf \<le> M - 2"
  shows "okv (borrow_from_right_leaf t leaf right i)
           (\<lambda>(t', r). (r = 0 \<longrightarrow> t' = t \<and> sz_at (szs t) right \<le> M div 2)
                     \<and> (r \<noteq> 0 \<longrightarrow> bnd M t'))"
proof -
  note wf = bnd_wf [OF b]
  have m: "min_leaf_keys t = M div 2"
    using M by (simp add: min_leaf_keys_def wfM_max [OF wf] sdiv2_nonneg)
  show ?thesis
    using b [unfolded bnd_allb] M x wf bnd_sz [OF b, of right]
    unfolding borrow_from_right_leaf_def wfM_ops [OF wf] m
    apply -
    apply (rule okv_bind [OF okv_deref2], assumption)
    apply (clarsimp simp: node_size)
    apply (rule okv_nocap_bind, simp)
    apply (rule okv_bind [OF okv_erase_node2], assumption, clarsimp)
    apply (rule okv_bind [OF okv_deref2], assumption)
    apply (clarsimp simp: node_size split del: if_split)
    apply (rule okv_bind [OF okv_insert_node2], assumption)
     apply simp
    apply (clarsimp split del: if_split)
    apply (rule okv_bind [OF okv_deref2], assumption)
    apply (clarsimp simp: node_size split del: if_split)
    apply (split if_split, intro conjI impI)
     apply (rule okv_nocap_bind, simp)
     apply (rule okv_bind [OF okv_deref2], assumption, clarsimp)
     apply (rule okv_bind [OF okv_set_key_of_allb [where M = M]], assumption)
      apply simp
      apply (rule allb_bump, rule allb_bump_dec, erule allb_mono, simp, simp, simp)
     apply (clarsimp simp: bnd_allb)
     apply (rule allb_bump, rule allb_bump_dec, assumption, simp, simp)
    apply (clarsimp simp: bnd_allb)
    apply (rule allb_bump, rule allb_bump_dec, assumption, simp, simp)
    done
qed

lemma okv_append_keys:
  assumes wf: "wfM M t" and room: "sz_at (szs t) dst + int (nat n) \<le> M"
  shows "okv (append_keys t dst src base n)
           (\<lambda>t'. wfM M t' \<and> szs t' = bump dst (\<lambda>s. s + int (nat n)) (szs t))"
  unfolding append_keys_def wfM_ops [OF wf]
  apply (rule okv_weaken)
   apply (rule okv_insert_loop [rotated, where p = dst and M = M, OF wf])
  using room apply simp
   apply (rule okv_nocap_bind, simp)
   apply (rule okv_nocap_bind, simp)
   apply (rule okv_weaken [OF okv_insert_node2], assumption, assumption, simp)
  apply simp
  done

lemma okv_append_entries:
  assumes wf: "wfM M t" and room: "sz_at (szs t) dst + int (nat n) \<le> M"
  shows "okv (append_entries t dst src base n)
           (\<lambda>t'. wfM M t' \<and> szs t' = bump dst (\<lambda>s. s + int (nat n)) (szs t))"
  unfolding append_entries_def wfM_ops [OF wf]
  apply (rule okv_weaken)
   apply (rule okv_insert_loop [rotated, where p = dst and M = M, OF wf])
  using room apply simp
   apply (rule okv_nocap_bind, simp)
   apply (rule okv_nocap_bind, simp)
   apply (rule okv_nocap_bind, simp)
   apply (rule okv_insert_parent_body, assumption, assumption)
  apply simp
  done

lemma okv_merge_leaf_into_left:
  assumes b: "bnd M t" and M: "3 \<le> M"
    and l: "sz_at (szs t) left \<le> M div 2" and x: "sz_at (szs t) leaf \<le> M div 2 - 1"
  shows "okv (merge_leaf_into_left t left leaf i) (bnd M)"
proof -
  note wf = bnd_wf [OF b]
  show ?thesis
    using b [unfolded bnd_allb] M l x wf
    unfolding merge_leaf_into_left_def wfM_ops [OF wf]
    apply -
    apply (rule okv_bind [OF okv_deref2], assumption)
    apply (clarsimp simp: node_size)
    apply (rule okv_bind [OF okv_deref2], assumption)
    apply (clarsimp simp: node_size)
    apply (rule okv_bind [OF okv_append_keys [where M = M]], assumption)
     apply (simp; arith)
    apply clarsimp
    apply (rule okv_bind [OF okv_deref2], assumption, clarsimp)
    apply (rule okv_bind [OF okv_upd_node], assumption, simp, clarsimp)
    apply (rule okv_assert_bind)
    apply (rule okv_bind [OF okv_deref2], assumption, clarsimp)
    apply (rule okv_bind [OF okv_erase_node2], assumption, clarsimp)
    apply (rule okv_weaken [OF okv_node_destroy2], assumption)
    apply (clarsimp simp: bnd_allb split del: if_split)
    apply (rule allb_bump_dec, rule allb_bump_dec, rule allb_bump, assumption)
      apply (simp; arith)
     apply simp
    apply simp
    done
qed

lemma okv_merge_right_leaf_into_leaf:
  assumes b: "bnd M t" and M: "3 \<le> M"
    and r: "sz_at (szs t) right \<le> M div 2" and x: "sz_at (szs t) leaf \<le> M div 2 - 1"
  shows "okv (merge_right_leaf_into_leaf t leaf right i) (bnd M)"
proof -
  note wf = bnd_wf [OF b]
  show ?thesis
    using b [unfolded bnd_allb] M r x wf
    unfolding merge_right_leaf_into_leaf_def wfM_ops [OF wf]
    apply -
    apply (rule okv_bind [OF okv_deref2], assumption)
    apply (clarsimp simp: node_size)
    apply (rule okv_bind [OF okv_deref2], assumption)
    apply (clarsimp simp: node_size)
    apply (rule okv_bind [OF okv_append_keys [where M = M]], assumption)
     apply (simp; arith)
    apply clarsimp
    apply (rule okv_bind [OF okv_deref2], assumption, clarsimp)
    apply (rule okv_bind [OF okv_upd_node], assumption, simp, clarsimp)
    apply (rule okv_bind [OF okv_deref2], assumption, clarsimp)
    apply (rule okv_bind [OF okv_erase_node2], assumption, clarsimp)
    apply (rule okv_weaken [OF okv_node_destroy2], assumption)
    apply (clarsimp simp: bnd_allb split del: if_split)
    apply (rule allb_bump_dec, rule allb_bump_dec, rule allb_bump, assumption)
      apply (simp; arith)
     apply simp
    apply simp
    done
qed

lemma min_internal_keys_wf:
  "wfM M t \<Longrightarrow> 3 \<le> M \<Longrightarrow> min_internal_keys t = (M + 1) div 2 - 1"
  by (simp add: min_internal_keys_def wfM_order sdiv2_nonneg)

lemma okv_borrow_from_left_internal:
  assumes b: "bnd M t" and M: "3 \<le> M" and x: "sz_at (szs t) x \<le> M - 2"
  shows "okv (borrow_from_left_internal t x left i)
           (\<lambda>(t', r). (r = 0 \<longrightarrow> t' = t \<and> sz_at (szs t) left \<le> (M + 1) div 2 - 1)
                     \<and> (r \<noteq> 0 \<longrightarrow> bnd M t'))"
proof -
  note wf = bnd_wf [OF b]
  note m = min_internal_keys_wf [OF wf M]
  show ?thesis
    using b [unfolded bnd_allb] M x wf bnd_sz [OF b, of left]
    unfolding borrow_from_left_internal_def wfM_ops [OF wf] m Let_def
    apply -
    apply (rule okv_bind [OF okv_deref2], assumption)
    apply (clarsimp simp: node_size)
    apply (rule okv_bind [OF okv_deref2], assumption, clarsimp)
    apply (rule okv_bind [OF okv_deref2], assumption, clarsimp)
    apply (rule okv_nocap_bind, simp)
    apply (rule okv_nocap_bind, simp)
    apply (rule okv_nocap_bind)
     apply (rule nocap_subtree_first_key, simp add: wfM_ops)
    apply (rule okv_bind [OF okv_erase_node2], assumption, clarsimp)
    apply (rule okv_bind [OF okv_deref2], assumption, clarsimp)
    apply (rule okv_bind [OF okv_upd_node], assumption, simp, clarsimp)
    apply (rule okv_bind [OF okv_set_parent_if], assumption, clarsimp)
    apply (rule okv_bind [OF okv_insert_node2], assumption)
     apply simp
    apply clarsimp
    apply (rule okv_bind [OF okv_set_parent_if], assumption, clarsimp)
    apply (rule okv_bind [OF okv_deref2], assumption, clarsimp)
    apply (rule okv_bind [OF okv_set_key_of_allb [where M = M]], assumption)
     apply simp
     apply (rule allb_bump, rule allb_bump_dec, erule allb_mono, simp, simp, simp)
    apply (clarsimp simp: bnd_allb)
    apply (rule allb_bump, rule allb_bump_dec, assumption, simp, simp)
    done
qed

lemma okv_borrow_from_right_internal:
  assumes b: "bnd M t" and M: "3 \<le> M" and x: "sz_at (szs t) x \<le> M - 2"
  shows "okv (borrow_from_right_internal t x right i)
           (\<lambda>(t', r). (r = 0 \<longrightarrow> t' = t \<and> sz_at (szs t) right \<le> (M + 1) div 2 - 1)
                     \<and> (r \<noteq> 0 \<longrightarrow> bnd M t'))"
proof -
  note wf = bnd_wf [OF b]
  note m = min_internal_keys_wf [OF wf M]
  show ?thesis
    using b [unfolded bnd_allb] M x wf bnd_sz [OF b, of right]
    unfolding borrow_from_right_internal_def wfM_ops [OF wf] m Let_def
    apply -
    apply (rule okv_bind [OF okv_deref2], assumption)
    apply (clarsimp simp: node_size)
    apply (rule okv_bind [OF okv_deref2], assumption, clarsimp)
    apply (rule okv_bind [OF okv_deref2], assumption, clarsimp)
    apply (rule okv_nocap_bind, simp)
    apply (rule okv_nocap_bind, simp)
    apply (rule okv_nocap_bind, simp)
    apply (rule okv_bind [OF okv_erase_node2], assumption, clarsimp)
    apply (rule okv_bind [OF okv_upd_node], assumption, simp, clarsimp)
    apply (rule okv_bind [OF okv_set_parent_if], assumption, clarsimp)
    apply (rule okv_bind [OF okv_deref2], assumption)
    apply (clarsimp simp: node_size split del: if_split)
    apply (rule okv_bind [OF okv_insert_node2], assumption)
     apply simp
    apply (clarsimp split del: if_split)
    apply (rule okv_bind [OF okv_set_parent_if], assumption)
    apply (clarsimp split del: if_split)
    apply (rule okv_bind [OF okv_deref2], assumption)
    apply (clarsimp split del: if_split)
    apply (rule okv_bind [OF okv_set_key_of_allb [where M = M]], assumption)
     apply simp
     apply (rule allb_bump, rule allb_bump_dec, erule allb_mono, simp, simp, simp)
    apply (clarsimp simp: bnd_allb)
    apply (rule allb_bump, rule allb_bump_dec, assumption, simp, simp)
    done
qed

lemma okv_merge_internal_into_left:
  assumes b: "bnd M t" and M: "3 \<le> M"
    and l: "sz_at (szs t) left \<le> (M + 1) div 2 - 1"
    and x: "sz_at (szs t) x \<le> (M + 1) div 2 - 2"
  shows "okv (merge_internal_into_left t left x i) (bnd M)"
proof -
  note wf = bnd_wf [OF b]
  have al: "x = left \<longrightarrow> sz_at (szs t) left \<le> (M + 1) div 2 - 2"
    using x by auto
  show ?thesis
    using b [unfolded bnd_allb] M l x wf al
    unfolding merge_internal_into_left_def wfM_ops [OF wf]
    apply -
    apply (rule okv_bind [OF okv_deref2], assumption, clarsimp)
    apply (rule okv_bind [OF okv_deref2], assumption, clarsimp)
    apply (rule okv_nocap_bind, simp)
    apply (clarsimp simp: node_size)
    apply (rule okv_bind [OF okv_deref2], assumption, clarsimp)
    apply (rule okv_bind [OF okv_insert_node2], assumption)
     apply (simp; arith)
    apply clarsimp
    apply (rule okv_bind [OF okv_deref2], assumption, clarsimp split del: if_split)
    apply (rule okv_bind [OF okv_set_parent_if], assumption, clarsimp split del: if_split)
    apply (rule okv_bind [OF okv_deref2], assumption)
    apply (clarsimp simp: node_size split del: if_split)
    apply (rule okv_bind [OF okv_append_entries [where M = M]], assumption)
     apply (simp; arith)
    apply (clarsimp split del: if_split)
    apply (rule okv_bind [OF okv_deref2], assumption, clarsimp split del: if_split)
    apply (rule okv_bind [OF okv_erase_node2], assumption, clarsimp split del: if_split)
    apply (rule okv_weaken [OF okv_node_destroy2], assumption)
    apply (clarsimp simp: bnd_allb split del: if_split)
    apply (rule allb_bump_dec, rule allb_bump_dec, rule allb_bump, rule allb_bump, assumption)
       apply (simp; arith)
      apply (simp; arith)
     apply simp
    apply simp
    done
qed

lemma okv_merge_right_internal_into_x:
  assumes b: "bnd M t" and M: "3 \<le> M"
    and r: "sz_at (szs t) right \<le> (M + 1) div 2 - 1"
    and x: "sz_at (szs t) x \<le> (M + 1) div 2 - 2"
  shows "okv (merge_right_internal_into_x t x right i) (bnd M)"
proof -
  note wf = bnd_wf [OF b]
  have al: "right = x \<longrightarrow> sz_at (szs t) right \<le> (M + 1) div 2 - 2"
    using x by auto
  show ?thesis
    using b [unfolded bnd_allb] M r x wf al
    unfolding merge_right_internal_into_x_def wfM_ops [OF wf]
    apply -
    apply (rule okv_bind [OF okv_deref2], assumption, clarsimp)
    apply (rule okv_bind [OF okv_deref2], assumption, clarsimp)
    apply (rule okv_nocap_bind, simp)
    apply (clarsimp simp: node_size)
    apply (rule okv_bind [OF okv_deref2], assumption, clarsimp)
    apply (rule okv_bind [OF okv_insert_node2], assumption)
     apply (simp; arith)
    apply clarsimp
    apply (rule okv_bind [OF okv_deref2], assumption, clarsimp split del: if_split)
    apply (rule okv_bind [OF okv_set_parent_if], assumption, clarsimp split del: if_split)
    apply (rule okv_bind [OF okv_deref2], assumption)
    apply (clarsimp simp: node_size split del: if_split)
    apply (rule okv_bind [OF okv_append_entries [where M = M]], assumption)
     apply (simp; arith)
    apply (clarsimp split del: if_split)
    apply (rule okv_bind [OF okv_deref2], assumption, clarsimp split del: if_split)
    apply (rule okv_bind [OF okv_erase_node2], assumption, clarsimp split del: if_split)
    apply (rule okv_weaken [OF okv_node_destroy2], assumption)
    apply (clarsimp simp: bnd_allb split del: if_split)
    apply (rule allb_bump_dec, rule allb_bump_dec, rule allb_bump, rule allb_bump, assumption)
       apply (simp; arith)
      apply (simp; arith)
     apply simp
    apply simp
    done
qed

lemma okv_leaf_tail:
  assumes b: "bnd M t" and M: "3 \<le> M" and x: "sz_at (szs t) x \<le> M div 2 - 1"
    and K: "\<And>t3. bnd M t3 \<Longrightarrow> okv (K t3) (bnd M)"
  shows "okv (rbind (if left \<noteq> None then borrow_from_left_leaf t x left i
                    else Inr (t, 0)) (\<lambda>(t1, b1).
             if b1 \<noteq> 0 then Inr t1
             else
               rbind (if right \<noteq> None then borrow_from_right_leaf t1 x right i
                      else Inr (t1, 0)) (\<lambda>(t2, b2).
               if b2 \<noteq> 0 then Inr t2
               else if left \<noteq> None then
                 rbind (merge_leaf_into_left t2 left x i) K
               else if right \<noteq> None then
                 rbind (merge_right_leaf_into_leaf t2 x right i) K
               else Inr t2))) (bnd M)"
proof -
  have x2: "sz_at (szs t) x \<le> M - 2"
    using x M by arith
  have s1: "okv (if left \<noteq> None then borrow_from_left_leaf t x left i else Inr (t, 0))
              (\<lambda>(t1, b1). (b1 = 0 \<longrightarrow> t1 = t \<and> (left \<noteq> None \<longrightarrow> sz_at (szs t) left \<le> M div 2))
                     \<and> (b1 \<noteq> 0 \<longrightarrow> bnd M t1))"
  proof (cases "left = None")
    case True
    then show ?thesis by simp
  next
    case False
    then show ?thesis
      by (auto intro: okv_weaken [OF okv_borrow_from_left_leaf [OF b M x2]])
  qed
  have s2: "okv (if right \<noteq> None then borrow_from_right_leaf t x right i else Inr (t, 0))
              (\<lambda>(t1, b1). (b1 = 0 \<longrightarrow> t1 = t \<and> (right \<noteq> None \<longrightarrow> sz_at (szs t) right \<le> M div 2))
                     \<and> (b1 \<noteq> 0 \<longrightarrow> bnd M t1))"
  proof (cases "right = None")
    case True
    then show ?thesis by simp
  next
    case False
    then show ?thesis
      by (auto intro: okv_weaken [OF okv_borrow_from_right_leaf [OF b M x2]])
  qed
  have m1: "okv (rbind (merge_leaf_into_left t left x i) K) (bnd M)"
    if "sz_at (szs t) left \<le> M div 2"
    by (rule okv_bind [OF okv_merge_leaf_into_left [OF b M that x]]) (rule K)
  have m2: "okv (rbind (merge_right_leaf_into_leaf t x right i) K) (bnd M)"
    if "sz_at (szs t) right \<le> M div 2"
    by (rule okv_bind [OF okv_merge_right_leaf_into_leaf [OF b M that x]]) (rule K)
  show ?thesis
  proof (rule okv_bind [OF s1])
    fix r1 :: "BPTree \<times> int"
    assume a1: "case r1 of (t1, b1) \<Rightarrow>
                  (b1 = 0 \<longrightarrow> t1 = t \<and> (left \<noteq> None \<longrightarrow> sz_at (szs t) left \<le> M div 2))
                     \<and> (b1 \<noteq> 0 \<longrightarrow> bnd M t1)"
    obtain t1 b1 where r1: "r1 = (t1, b1)" by (cases r1)
    show "okv (case r1 of (t1, b1) \<Rightarrow>
             if b1 \<noteq> 0 then Inr t1
             else
               rbind (if right \<noteq> None then borrow_from_right_leaf t1 x right i
                      else Inr (t1, 0)) (\<lambda>(t2, b2).
               if b2 \<noteq> 0 then Inr t2
               else if left \<noteq> None then
                 rbind (merge_leaf_into_left t2 left x i) K
               else if right \<noteq> None then
                 rbind (merge_right_leaf_into_leaf t2 x right i) K
               else Inr t2)) (bnd M)"
    proof (cases "b1 = 0")
      case False
      with a1 r1 show ?thesis by simp
    next
      case True
      with a1 r1 have t1: "t1 = t" and l: "left \<noteq> None \<longrightarrow> sz_at (szs t) left \<le> M div 2"
        by simp_all
      show ?thesis
        unfolding r1 prod.case True t1
        apply (simp only: simp_thms if_False)
      proof (rule okv_bind [OF s2])
        fix r2 :: "BPTree \<times> int"
        assume a2: "case r2 of (t1, b1) \<Rightarrow>
                  (b1 = 0 \<longrightarrow> t1 = t \<and> (right \<noteq> None \<longrightarrow> sz_at (szs t) right \<le> M div 2))
                     \<and> (b1 \<noteq> 0 \<longrightarrow> bnd M t1)"
        obtain t2 b2 where r2: "r2 = (t2, b2)" by (cases r2)
        show "okv (case r2 of (t2, b2) \<Rightarrow>
               if b2 \<noteq> 0 then Inr t2
               else if left \<noteq> None then
                 rbind (merge_leaf_into_left t2 left x i) K
               else if right \<noteq> None then
                 rbind (merge_right_leaf_into_leaf t2 x right i) K
               else Inr t2) (bnd M)"
        proof (cases "b2 = 0")
          case False
          with a2 r2 show ?thesis by simp
        next
          case True
          with a2 r2 have t2: "t2 = t"
            and r: "right \<noteq> None \<longrightarrow> sz_at (szs t) right \<le> M div 2"
            by simp_all
          show ?thesis
            unfolding r2 prod.case True t2
            using l r m1 m2 b by simp
        qed
      qed
    qed
  qed
qed

lemma okv_internal_tail:
  assumes b: "bnd M t" and M: "3 \<le> M" and x: "sz_at (szs t) x \<le> (M + 1) div 2 - 2"
    and K: "\<And>t3. bnd M t3 \<Longrightarrow> okv (K t3) (bnd M)"
  shows "okv (rbind (if left \<noteq> None then borrow_from_left_internal t x left i
                    else Inr (t, 0)) (\<lambda>(t1, b1).
             if b1 \<noteq> 0 then Inr t1
             else
               rbind (if right \<noteq> None then borrow_from_right_internal t1 x right i
                      else Inr (t1, 0)) (\<lambda>(t2, b2).
               if b2 \<noteq> 0 then Inr t2
               else if left \<noteq> None then
                 rbind (merge_internal_into_left t2 left x i) K
               else if right \<noteq> None then
                 rbind (merge_right_internal_into_x t2 x right i) K
               else Inr t2))) (bnd M)"
proof -
  have x2: "sz_at (szs t) x \<le> M - 2"
    using x M by arith
  have s1: "okv (if left \<noteq> None then borrow_from_left_internal t x left i else Inr (t, 0))
              (\<lambda>(t1, b1). (b1 = 0 \<longrightarrow> t1 = t \<and> (left \<noteq> None \<longrightarrow> sz_at (szs t) left \<le> (M + 1) div 2 - 1))
                     \<and> (b1 \<noteq> 0 \<longrightarrow> bnd M t1))"
  proof (cases "left = None")
    case True
    then show ?thesis by simp
  next
    case False
    then show ?thesis
      by (auto intro: okv_weaken [OF okv_borrow_from_left_internal [OF b M x2]])
  qed
  have s2: "okv (if right \<noteq> None then borrow_from_right_internal t x right i else Inr (t, 0))
              (\<lambda>(t1, b1). (b1 = 0 \<longrightarrow> t1 = t \<and> (right \<noteq> None \<longrightarrow> sz_at (szs t) right \<le> (M + 1) div 2 - 1))
                     \<and> (b1 \<noteq> 0 \<longrightarrow> bnd M t1))"
  proof (cases "right = None")
    case True
    then show ?thesis by simp
  next
    case False
    then show ?thesis
      by (auto intro: okv_weaken [OF okv_borrow_from_right_internal [OF b M x2]])
  qed
  have m1: "okv (rbind (merge_internal_into_left t left x i) K) (bnd M)"
    if "sz_at (szs t) left \<le> (M + 1) div 2 - 1"
    by (rule okv_bind [OF okv_merge_internal_into_left [OF b M that x]]) (rule K)
  have m2: "okv (rbind (merge_right_internal_into_x t x right i) K) (bnd M)"
    if "sz_at (szs t) right \<le> (M + 1) div 2 - 1"
    by (rule okv_bind [OF okv_merge_right_internal_into_x [OF b M that x]]) (rule K)
  show ?thesis
  proof (rule okv_bind [OF s1])
    fix r1 :: "BPTree \<times> int"
    assume a1: "case r1 of (t1, b1) \<Rightarrow>
                  (b1 = 0 \<longrightarrow> t1 = t \<and> (left \<noteq> None \<longrightarrow> sz_at (szs t) left \<le> (M + 1) div 2 - 1))
                     \<and> (b1 \<noteq> 0 \<longrightarrow> bnd M t1)"
    obtain t1 b1 where r1: "r1 = (t1, b1)" by (cases r1)
    show "okv (case r1 of (t1, b1) \<Rightarrow>
             if b1 \<noteq> 0 then Inr t1
             else
               rbind (if right \<noteq> None then borrow_from_right_internal t1 x right i
                      else Inr (t1, 0)) (\<lambda>(t2, b2).
               if b2 \<noteq> 0 then Inr t2
               else if left \<noteq> None then
                 rbind (merge_internal_into_left t2 left x i) K
               else if right \<noteq> None then
                 rbind (merge_right_internal_into_x t2 x right i) K
               else Inr t2)) (bnd M)"
    proof (cases "b1 = 0")
      case False
      with a1 r1 show ?thesis by simp
    next
      case True
      with a1 r1 have t1: "t1 = t" and l: "left \<noteq> None \<longrightarrow> sz_at (szs t) left \<le> (M + 1) div 2 - 1"
        by simp_all
      show ?thesis
        unfolding r1 prod.case True t1
        apply (simp only: simp_thms if_False)
      proof (rule okv_bind [OF s2])
        fix r2 :: "BPTree \<times> int"
        assume a2: "case r2 of (t1, b1) \<Rightarrow>
                  (b1 = 0 \<longrightarrow> t1 = t \<and> (right \<noteq> None \<longrightarrow> sz_at (szs t) right \<le> (M + 1) div 2 - 1))
                     \<and> (b1 \<noteq> 0 \<longrightarrow> bnd M t1)"
        obtain t2 b2 where r2: "r2 = (t2, b2)" by (cases r2)
        show "okv (case r2 of (t2, b2) \<Rightarrow>
               if b2 \<noteq> 0 then Inr t2
               else if left \<noteq> None then
                 rbind (merge_internal_into_left t2 left x i) K
               else if right \<noteq> None then
                 rbind (merge_right_internal_into_x t2 x right i) K
               else Inr t2) (bnd M)"
        proof (cases "b2 = 0")
          case False
          with a2 r2 show ?thesis by simp
        next
          case True
          with a2 r2 have t2: "t2 = t"
            and r: "right \<noteq> None \<longrightarrow> sz_at (szs t) right \<le> (M + 1) div 2 - 1"
            by simp_all
          show ?thesis
            unfolding r2 prod.case True t2
            using l r m1 m2 b by simp
        qed
      qed
    qed
  qed
qed

lemma okv_case_prod: "(\<And>a b. okv (f a b) Q) \<Longrightarrow> okv (case p of (a, b) \<Rightarrow> f a b) Q"
  by (cases p) simp

lemma okv_rebalance_after_delete:
  "bnd M t \<Longrightarrow> 3 \<le> M \<Longrightarrow> okv (rebalance_after_delete f t x) (bnd M)"
proof (induction f arbitrary: t x)
  case 0
  then show ?case by simp
next
  case (Suc f)
  note b = Suc.prems(1) and M = Suc.prems(2)
  note wf = bnd_wf [OF b]
  note ops = wfM_ops [OF wf]
  have ml: "min_leaf_keys t = M div 2"
    using M by (simp add: min_leaf_keys_def wfM_max [OF wf] sdiv2_nonneg)
  note mi = min_internal_keys_wf [OF wf M]
  have K: "okv (rebalance_after_delete f t3 p) (bnd M)" if "bnd M t3" for t3 p
    by (rule Suc.IH [OF that M])
  have up: "okv (update_parent_sep_if_needed t x) (bnd M)"
    apply (rule okv_weaken [OF okv_update_parent_sep [OF wf]])
     apply (simp add: bnd_le [OF b])
    using b apply (simp add: bnd_def)
    done
  show ?case
  proof (cases "x = None")
    case True
    then show ?thesis using b by simp
  next
    case xn: False
    show ?thesis
    proof (cases "x = root t")
      case True
      show ?thesis
        unfolding rebalance_after_delete.simps if_not_P [OF xn] if_P [OF True]
          fix_root_after_delete_def
        by (rule okv_fix_root_loop [OF b])
    next
      case False
      show ?thesis
        unfolding rebalance_after_delete.simps if_not_P [OF xn] if_not_P [OF False] Let_def
          ops ml mi
        apply (rule okv_bind [OF okv_deref2 [OF wf]])
        apply (rule okv_nocap_bind)
         apply (rule nocap_parent_child_index [OF ops])
        apply (rule okv_assert_bind)
        apply (clarsimp simp: node_size split del: if_split simp del: rebalance_after_delete.simps)
        apply (split if_split, intro conjI impI)
         apply (split if_split, intro conjI impI)
          apply (rule up)
         apply (rule okv_nocap_bind)
          apply (rule nocap_siblings [OF ops])
         apply (rule okv_case_prod)
         apply (rule okv_leaf_tail [OF b M])
          apply simp
         apply (rule K, assumption)
        apply (split if_split, intro conjI impI)
         apply (rule up)
        apply (rule okv_nocap_bind)
         apply (rule nocap_siblings [OF ops])
        apply (rule okv_case_prod)
        apply (rule okv_internal_tail [OF b M])
         apply simp
        apply (rule K, assumption)
        done
    qed
  qed
qed

lemma okv_bptree_delete:
  assumes b: "bndo M th" and M: "3 \<le> M"
  shows "okv (bptree_delete th k) (bndo M)"
proof (cases th)
  case None
  then show ?thesis by (simp add: bptree_delete_def bndo_def)
next
  case (Some t)
  with b have bt: "bnd M t" by (simp add: bndo_def)
  note wf = bnd_wf [OF bt]
  note ops = wfM_ops [OF wf]
  show ?thesis
  proof (cases "root t = None")
    case True
    with bt Some show ?thesis by (simp add: bptree_delete_def bndo_def)
  next
    case False
    show ?thesis
      using bt wf M
      unfolding bptree_delete_def Some ops find_leaf_def option.case if_not_P [OF False]
        fix_root_after_delete_def
      apply -
      apply (rule okv_nocap_bind)
       apply (rule nocap_find_leaf_loop [OF ops])
      subgoal for leaf
        apply (cases "leaf = None")
         apply (simp add: bndo_def)
        apply (simp only: if_False)
        apply (rule okv_bind [OF okv_deref2], assumption)
        apply (rule okv_nocap_bind)
         apply (rule nocap_leaf_find [OF ops])
        apply (clarsimp simp: bndo_def simp del: fix_root_loop.simps rebalance_after_delete.simps)
        apply (rule okv_bind [OF okv_erase_node2], assumption)
        apply (rule okv_bind [OF okv_rebalance_after_delete [where M = M]])
          apply (rule bnd_mono [where t = t], assumption, simp)
          apply simp
         apply assumption
        apply (rule okv_bind [OF okv_fix_root_loop [where M = M]], assumption)
        apply (simp add: bndo_def)
        done
      done
  qed
qed

lemma okv_rfold_inv:
  assumes "\<And>x s. I s \<Longrightarrow> okv (f x s) I"
  shows "I s \<Longrightarrow> okv (rfold f xs s) I"
  by (induction xs arbitrary: s) (auto intro: okv_bind assms)

lemma okv_apply_op: "bndo M th \<Longrightarrow> 3 \<le> M \<Longrightarrow> okv (apply_op op th) (bndo M)"
  by (cases op) (simp_all add: okv_bptree_insert okv_bptree_delete)

lemma okv_apply_op_code: "bndo M th \<Longrightarrow> 3 \<le> M \<Longrightarrow> okv (apply_op_code op th) (bndo M)"
  by (cases op) (simp_all add: okv_bptree_insert_code okv_bptree_delete_code)

lemma okv_run: "okv (run M0 os) (bndo (max M0 3))"
  unfolding run_def run_from_def
  apply (rule okv_bind [OF okv_bptree_create])
  apply (rule okv_rfold_inv)
   apply (rule okv_apply_op, assumption, simp)
  apply (simp add: bndo_def)
  done

lemma okv_run_code: "okv (run_code M0 os) (bndo (max M0 3))"
  unfolding run_code_def run_from_code_def
  apply (rule okv_bind [OF okv_bptree_create])
  apply (rule okv_rfold_inv)
   apply (rule okv_apply_op_code, assumption, simp)
  apply (simp add: bndo_def)
  done

lemma bnd_within_capacity:
  assumes b: "bnd M t" and M: "3 \<le> M"
  shows "within_capacity t"
proof -
  note wf = bnd_wf [OF b]
  have "szs t ! i \<le> M - 1" if "i < length (szs t)" for i
    using bnd_sz [OF b, of "Some i"] that by (simp add: sz_at_def)
  then have "list_all (\<lambda>s. s \<le> M - 1) (szs t)"
    by (simp add: list_all_length)
  with wf M show ?thesis
    by (simp add: within_capacity_def wfM_order [OF wf])
qed

lemma transient_overflow:
  assumes b: "bnd M t" and M: "3 \<le> M"
    and u: "upd_store t leaf (\<lambda>s. op_insert_at (ops t) s i k v) = Inr t1"
  shows "list_all (\<lambda>s. s \<le> order_M t) (szs t1)
         \<and> (\<forall>t2 sep right. split_leaf_nodes t1 leaf = Inr (t2, sep, right)
               \<longrightarrow> within_capacity t2)"
proof -
  note wf = bnd_wf [OF b]
  have lt: "sz_at (szs t) leaf < M"
    using bnd_sz [OF b, of leaf] by simp
  from okv_insert_node2 [OF wf lt, of i k v] u
  have wf1: "wfM M t1" and s1: "szs t1 = bump leaf (\<lambda>s. s + 1) (szs t)"
    by (simp_all add: wfM_ops [OF wf])
  have "szs t1 ! j \<le> M" if "j < length (szs t1)" for j
  proof -
    have "sz_at (szs t1) (Some j) \<le> M"
      unfolding s1 using bnd_sz [OF b, of "Some j"] bnd_sz [OF b, of leaf] by simp
    with that show ?thesis by (simp add: sz_at_def)
  qed
  then have one: "list_all (\<lambda>s. s \<le> order_M t) (szs t1)"
    by (simp add: list_all_length wfM_order [OF wf])
  have bb: "bnd_but M t1 leaf"
    unfolding bnd_but_def s1 using wf1 bnd_sz [OF b] by simp
  have "within_capacity t2" if "split_leaf_nodes t1 leaf = Inr (t2, sep, right)" for t2 sep right
    using okv_split_leaf_nodes [OF bb M] that bnd_within_capacity [OF _ M, of t2] by simp
  with one show ?thesis by blast
qed

section \<open>Descent and search (C1)\<close>

text \<open>
  C1. Search is claimed to return true exactly for the keys inserted and not deleted,
  with a key equal to a separator descending to the right of it in every version.
  In src/code/bptree.c \<open>find_leaf\<close> follows the plain lower bound: in the order-3 tree
  holding 10, 20 and 30 the descent for 30 ends in the leaf \<open>[10, 20]\<close> to the left of
  the separator 30, and \<open>bptree_search\<close> answers 0 for the inserted key 30. The scheme-A
  version ends in the leaf \<open>[30]\<close> and answers 1.
\<close>

theorem search_misses_inserted_key_code:
  "found_leaf_keys_code example_tree_code 30 = Inr [10, 20]
   \<and> bptree_search_code example_tree_code 30 = Inr 0
   \<and> found_leaf_keys example_tree 30 = Inr [30]
   \<and> bptree_search example_tree 30 = Inr 1"
  by code_simp

section \<open>Minimum occupancy (C2)\<close>

text \<open>
  C2. Every non-root leaf is claimed to keep at least \<open>ceil((M-1)/2)\<close> keys after every
  operation. \<open>bptree_delete\<close> of src/code/bptree.c erases the key and only shrinks the
  root: after 10 and 20 are deleted from the order-3 tree holding 10, 20 and 30, the left
  leaf is an empty non-root leaf. The scheme-A version merges the leaves and is left with
  the single leaf \<open>[30]\<close>.
\<close>

theorem delete_leaves_empty_leaf_code:
  "rbind (run_code 3 [Insert 10, Insert 20, Insert 30, Delete 10, Delete 20]) tree_shape
     = Inr (Node_shape [30] [Leaf_shape [], Leaf_shape [30]])
   \<and> rbind (run 3 [Insert 10, Insert 20, Insert 30, Delete 10, Delete 20]) tree_shape
     = Inr (Leaf_shape [30])"
  by code_simp

section \<open>Separators (C3)\<close>

text \<open>
  C3. Every separator is claimed to equal the least key below the child to its right
  after every operation. In the scheme-A version, order 4, after the insertion of 1 to 7
  the leaves are \<open>[1, 2]\<close>, \<open>[3, 4]\<close> and \<open>[5, 6, 7]\<close>; deleting 3 makes the middle leaf
  borrow 5 from its right sibling, and \<open>borrow_from_right_leaf\<close> rewrites the separator of
  the right sibling only: the separator of the middle leaf stays 3 while its least key
  is 4.
\<close>

theorem borrow_right_keeps_stale_separator:
  "rbind (run 4 [Insert 1, Insert 2, Insert 3, Insert 4, Insert 5, Insert 6, Insert 7])
         tree_shape
     = Inr (Node_shape [3, 5] [Leaf_shape [1, 2], Leaf_shape [3, 4], Leaf_shape [5, 6, 7]])
   \<and> rbind (run 4 [Insert 1, Insert 2, Insert 3, Insert 4, Insert 5, Insert 6, Insert 7,
                   Delete 3]) tree_shape
     = Inr (Node_shape [3, 6] [Leaf_shape [1, 2], Leaf_shape [4, 5], Leaf_shape [6, 7]])"
  by code_simp

section \<open>Repeated insertion (C4)\<close>

text \<open>
  C4. A second insertion of a key that is present is claimed to change nothing. In
  src/code/bptree.c the second insertion of 30 into the order-3 tree holding 10, 20 and
  30 descends to the leaf \<open>[10, 20]\<close>, does not find 30 there, inserts it and splits:
  the tree gets a second leaf \<open>[30]\<close> and a second separator 30. The scheme-A version
  leaves the tree as it is.
\<close>

theorem second_insert_mutates_code:
  "rbind (run_code 3 [Insert 10, Insert 20, Insert 30]) tree_shape
     = Inr (Node_shape [30] [Leaf_shape [10, 20], Leaf_shape [30]])
   \<and> rbind (run_code 3 [Insert 10, Insert 20, Insert 30, Insert 30]) tree_shape
     = Inr (Node_shape [30, 30] [Leaf_shape [10, 20], Leaf_shape [30], Leaf_shape [30]])
   \<and> live_nodes (the_tree (run_code 3 [Insert 10, Insert 20, Insert 30])) = 3
   \<and> live_nodes (the_tree (run_code 3 [Insert 10, Insert 20, Insert 30, Insert 30])) = 4
   \<and> rbind (run 3 [Insert 10, Insert 20, Insert 30, Insert 30]) tree_shape
     = Inr (Node_shape [30] [Leaf_shape [10, 20], Leaf_shape [30]])"
  by code_simp

section \<open>Deleting an absent key (C7)\<close>

text \<open>
  C7. If \<open>bptree_search(t, k)\<close> returns 0 then \<open>bptree_delete(t, k)\<close> returns normally
  and leaves the whole state (the tree record and every node) as it was. This holds in
  both versions and for every state, with any operations table: search and delete
  run the same descent and the same \<open>leaf_find\<close>, and delete returns before its first
  write when the key is not found.
\<close>

theorem delete_absent_is_identity:
  "(bptree_search th k = Inr 0 \<longrightarrow> bptree_delete th k = Inr th)
   \<and> (bptree_search_code th k = Inr 0 \<longrightarrow> bptree_delete_code th k = Inr th)"
  by (auto simp: bptree_search_def bptree_delete_def bptree_search_code_def
      bptree_delete_code_def rbind_def
      split: option.splits sum.splits if_splits prod.splits)

theorem delete_absent_is_identity_witness:
  "bptree_search example_tree 25 = Inr 0
   \<and> bptree_delete example_tree 25 = Inr example_tree
   \<and> bptree_search_code example_tree_code 25 = Inr 0
   \<and> bptree_delete_code example_tree_code 25 = Inr example_tree_code
   \<and> live_nodes example_tree = 3 \<and> live_nodes example_tree_code = 3"
proof -
  have a: "bptree_search example_tree 25 = Inr 0"
    by code_simp
  have b: "bptree_search_code example_tree_code 25 = Inr 0"
    by code_simp
  have c: "live_nodes example_tree = 3 \<and> live_nodes example_tree_code = 3"
    by code_simp
  from a b c delete_absent_is_identity [of example_tree 25]
    delete_absent_is_identity [of example_tree_code 25]
  show ?thesis by simp
qed

section \<open>Creation (C8)\<close>

text \<open>
  C8. \<open>bptree_create(M, ops)\<close>, for a null \<open>ops\<close> or the table of any backend of the
  repository, returns a tree of order \<open>max(M, 3)\<close> whose root is non-null and is the only
  node, an empty leaf of capacity \<open>max(M, 3)\<close>; its height is 1, every search returns 0
  and every delete leaves it unchanged, in both versions; a null \<open>ops\<close> selects the table
  of the array backend.
\<close>

theorem create_gives_single_empty_leaf:
  assumes "ops0 \<in> {None, Some nodestore_array_ops, Some nodestore_list_ops,
                     Some nodestore_skip_ops, Some nodestore_skip1_ops}"
  shows "\<exists>t leaf. bptree_create M ops0 = Inr t
           \<and> order_M t = max M 3 \<and> max_keys t = max M 3 - 1
           \<and> ops t = (case ops0 of None \<Rightarrow> nodestore_array_ops | Some ot \<Rightarrow> ot)
           \<and> root t = Some 0 \<and> nodes t = [Some leaf]
           \<and> is_leaf leaf = 1 \<and> parent leaf = None \<and> nxt leaf = None \<and> child0 leaf = None
           \<and> node_keys t leaf = Inr 0
           \<and> op_capacity (ops t) (store leaf) = Inr (max M 3)
           \<and> bptree_height (Some t) = Inr 1
           \<and> bptree_search (Some t) k = Inr 0 \<and> bptree_search_code (Some t) k = Inr 0
           \<and> bptree_delete (Some t) k = Inr (Some t)
           \<and> bptree_delete_code (Some t) k = Inr (Some t)"
proof -
  from assms consider "ops0 = None" | "ops0 = Some nodestore_array_ops"
    | "ops0 = Some nodestore_list_ops" | "ops0 = Some nodestore_skip_ops"
    | "ops0 = Some nodestore_skip1_ops" by auto
  then show ?thesis
  proof cases
    case 1
    show ?thesis
      unfolding 1
      by (simp add: bptree_create_def nodestore_get_ops_def node_create_def
          nodestore_array_ops_def arr_ns_create_def Let_def node_keys_def as_array_def
          arr_ns_size_def arr_ns_capacity_def bptree_height_def deref_def
          bptree_search_def bptree_search_code_def bptree_delete_def bptree_delete_code_def
          find_leaf_def find_leaf_code_def leaf_find_def arr_ns_lower_bound_def arr_lb_empty)
  next
    case 2
    show ?thesis
      unfolding 2
      by (simp add: bptree_create_def nodestore_get_ops_def node_create_def
          nodestore_array_ops_def arr_ns_create_def Let_def node_keys_def as_array_def
          arr_ns_size_def arr_ns_capacity_def bptree_height_def deref_def
          bptree_search_def bptree_search_code_def bptree_delete_def bptree_delete_code_def
          find_leaf_def find_leaf_code_def leaf_find_def arr_ns_lower_bound_def arr_lb_empty)
  next
    case 3
    show ?thesis
      unfolding 3
      by (simp add: bptree_create_def nodestore_get_ops_def node_create_def
          nodestore_list_ops_def lst_ns_create_def Let_def node_keys_def as_list_def
          lst_ns_size_def lst_ns_capacity_def bptree_height_def deref_def
          bptree_search_def bptree_search_code_def bptree_delete_def bptree_delete_code_def
          find_leaf_def find_leaf_code_def leaf_find_def lst_ns_lower_bound_def)
  next
    case 4
    show ?thesis
      unfolding 4
      by (simp add: bptree_create_def nodestore_get_ops_def node_create_def
          nodestore_skip_ops_def skp_ns_create_def Let_def node_keys_def as_skip_def
          arr_ns_size_def arr_ns_capacity_def bptree_height_def deref_def
          bptree_search_def bptree_search_code_def bptree_delete_def bptree_delete_code_def
          find_leaf_def find_leaf_code_def leaf_find_def arr_ns_lower_bound_def arr_lb_empty)
  next
    case 5
    show ?thesis
      unfolding 5
      by (simp add: bptree_create_def nodestore_get_ops_def node_create_def
          nodestore_skip1_ops_def sk1_ns_create_def Let_def node_keys_def as_skip1_def
          sk1_ns_size_def sk1_ns_capacity_def bptree_height_def deref_def
          bptree_search_def bptree_search_code_def bptree_delete_def bptree_delete_code_def
          find_leaf_def find_leaf_code_def leaf_find_def sk1_ns_lower_bound_def
          skiplist_create2_def skiplist_size_def skiplist_first_def)
  qed
qed

theorem create_gives_single_empty_leaf_witness:
  "\<exists>t leaf. bptree_create 4 None = Inr t
     \<and> order_M t = 4 \<and> max_keys t = 3 \<and> ops t = nodestore_array_ops
     \<and> root t = Some 0 \<and> nodes t = [Some leaf] \<and> is_leaf leaf = 1
     \<and> node_keys t leaf = Inr 0
     \<and> bptree_height (Some t) = Inr 1
     \<and> bptree_search (Some t) 0 = Inr 0
     \<and> bptree_delete (Some t) 0 = Inr (Some t)"
proof -
  have "None \<in> {None, Some nodestore_array_ops, Some nodestore_list_ops,
                 Some nodestore_skip_ops, Some nodestore_skip1_ops}"
    by simp
  from create_gives_single_empty_leaf [OF this, of 4 0]
  obtain t leaf where "bptree_create 4 None = Inr t" "order_M t = max 4 3"
    "max_keys t = max 4 3 - 1" "ops t = nodestore_array_ops" "root t = Some 0"
    "nodes t = [Some leaf]" "is_leaf leaf = 1" "node_keys t leaf = Inr 0"
    "bptree_height (Some t) = Inr 1" "bptree_search (Some t) 0 = Inr 0"
    "bptree_delete (Some t) 0 = Inr (Some t)"
    by auto
  then show ?thesis by auto
qed

section \<open>The null handle (C10)\<close>

text \<open>
  C10. With a null tree handle, in both versions, \<open>bptree_search\<close> returns 0,
  \<open>bptree_insert\<close> and \<open>bptree_delete\<close> return without an effect, \<open>bptree_destroy\<close>
  does nothing and \<open>bptree_height\<close> returns 0. For a handle that is not null and a tree
  whose root is not null, a height that \<open>bptree_height\<close> returns is at least 1.
\<close>

theorem null_handle_is_safe:
  "bptree_search None k = Inr 0 \<and> bptree_search_code None k = Inr 0
   \<and> bptree_insert None k = Inr None \<and> bptree_insert_code None k = Inr None
   \<and> bptree_delete None k = Inr None \<and> bptree_delete_code None k = Inr None
   \<and> bptree_destroy None = Inr None
   \<and> bptree_height None = Inr 0
   \<and> (root t \<noteq> None \<longrightarrow> bptree_height (Some t) = Inr h \<longrightarrow> 1 \<le> h)"
proof -
  have "1 \<le> h" if "root t \<noteq> None" and "bptree_height (Some t) = Inr h"
  proof -
    from that have "height_loop (Suc (length (nodes t))) t 1 (root t) = Inr h"
      by (auto simp add: bptree_height_def simp del: height_loop.simps split: if_splits)
    then show ?thesis by (rule height_loop_mono)
  qed
  then show ?thesis
    by (simp add: bptree_search_def bptree_search_code_def bptree_insert_def
        bptree_insert_code_def bptree_delete_def bptree_delete_code_def bptree_destroy_def
        bptree_height_def del: height_loop.simps)
qed

theorem null_handle_is_safe_witness:
  "\<exists>t. example_tree = Some t \<and> root t = Some 2 \<and> bptree_height (Some t) = Inr 2
       \<and> (1::int) \<le> 2 \<and> bptree_search None 0 = Inr 0 \<and> bptree_height None = Inr 0"
proof -
  have "case example_tree of None \<Rightarrow> False
        | Some t \<Rightarrow> root t = Some 2 \<and> bptree_height (Some t) = Inr 2"
    by code_simp
  then obtain t where t: "example_tree = Some t" "root t = Some 2"
    "bptree_height (Some t) = Inr 2"
    by (auto split: option.splits)
  from t null_handle_is_safe [of 0 t 2]
  have "(1::int) \<le> 2 \<and> bptree_search None 0 = Inr 0 \<and> bptree_height None = Inr 0"
    by simp
  with t show ?thesis by blast
qed

section \<open>The split operation of the backends (C6)\<close>

text \<open>
  C6, as stated, fails for a store with a single entry: the claim asks for
  \<open>floor(1/2) = 0\<close> entries and at least one entry in \<open>left\<close> at once. The array backend
  moves the only entry to \<open>right\<close>, leaves \<open>left\<close> empty and returns the key; the linked
  backend and both skip backends raise \<open>mid\<close> to 1, find nothing to move and stop at
  their assertion.
\<close>

theorem split_single_entry_counterexample:
  "arr_ns_split
     \<lparr>arr_cap = 2, arr_n = 1, arr_keys = [Some 5, None], arr_vals = [Some None, None]\<rparr>
     \<lparr>arr_cap = 2, arr_n = 0, arr_keys = [None, None], arr_vals = [None, None]\<rparr>
   = Inr (\<lparr>arr_cap = 2, arr_n = 0, arr_keys = [Some 5, None], arr_vals = [Some None, None]\<rparr>,
          \<lparr>arr_cap = 2, arr_n = 1, arr_keys = [Some 5, None], arr_vals = [Some None, None]\<rparr>,
          5)
   \<and> lst_ns_split \<lparr>lst_cap = 2, lst_n = 1, lst_head = [(5, None)]\<rparr>
                    \<lparr>lst_cap = 2, lst_n = 0, lst_head = []\<rparr>
     = Inl Assert_failed
   \<and> sk1_ns_split \<lparr>sk1_cap = 2, sk1_sl = \<lparr>sl_n = 1, sl_chain = [(5, None)]\<rparr>\<rparr>
                    \<lparr>sk1_cap = 2, sk1_sl = \<lparr>sl_n = 0, sl_chain = []\<rparr>\<rparr>
     = Inl Assert_failed
   \<and> skp_ns_split
       \<lparr>arr_cap = 2, arr_n = 1, arr_keys = [Some 5, Some 7],
          arr_vals = [Some None, Some None], skp_sl = [5]\<rparr>
       \<lparr>arr_cap = 2, arr_n = 0, arr_keys = [None, None], arr_vals = [None, None],
          skp_sl = []\<rparr>
     = Inl Assert_failed"
  by (simp add: arr_ns_split_def lst_ns_split_def sk1_ns_split_def skp_ns_split_def
      assert_def Let_def signed_divide_int_def arr_split_loop.simps cell_get_def
      cell_write_def cell_read_def lst_walk.simps sk1_split_walk.simps skiplist_size_def
      skiplist_first_def skipnode_next0_def)

text \<open>
  C6, amended. For a store \<open>left\<close> holding \<open>n \<ge> 2\<close> entries \<open>es\<close> with strictly
  ascending keys and an empty store \<open>right\<close> (for the backends that copy into arrays,
  with room for \<open>n - floor(n/2)\<close> entries), \<open>split\<close> of each backend (array, linked
  list, skip list, arrays mirrored by a skip list) returns normally, leaves exactly the
  first \<open>floor(n/2) \<ge> 1\<close> entries in \<open>left\<close>, puts the remaining entries in order into
  \<open>right\<close>, and returns the first key of \<open>right\<close>.
\<close>

theorem split_keeps_lower_half:
  assumes "2 \<le> length es" and "sorted_wrt (<) (map fst es)"
  shows "1 \<le> length es div 2
    \<and> (arr_holds la es \<and> arr_holds ra [] \<and> length es - length es div 2 \<le> nat (arr_cap ra)
         \<longrightarrow> (\<exists>l r. arr_ns_split la ra = Inr (l, r, fst (hd (drop (length es div 2) es)))
                \<and> arr_holds l (take (length es div 2) es)
                \<and> arr_holds r (drop (length es div 2) es)))
    \<and> (lst_holds ll es \<and> lst_holds lr []
         \<longrightarrow> (\<exists>l r. lst_ns_split ll lr = Inr (l, r, fst (hd (drop (length es div 2) es)))
                \<and> lst_holds l (take (length es div 2) es)
                \<and> lst_holds r (drop (length es div 2) es)))
    \<and> (sk1_holds sl es \<and> sk1_holds sr []
         \<longrightarrow> (\<exists>l r. sk1_ns_split sl sr = Inr (l, r, fst (hd (drop (length es div 2) es)))
                \<and> sk1_holds l (take (length es div 2) es)
                \<and> sk1_holds r (drop (length es div 2) es)))
    \<and> (arr_holds ml es \<and> arr_holds mr [] \<and> length es - length es div 2 \<le> nat (arr_cap mr)
         \<longrightarrow> (\<exists>l r. skp_ns_split ml mr = Inr (l, r, fst (hd (drop (length es div 2) es)))
                \<and> skp_holds l (take (length es div 2) es)
                \<and> skp_holds r (drop (length es div 2) es)))"
proof -
  from assms(1) have m: "1 \<le> length es div 2" "length es div 2 < length es" "1 \<le> length es"
    by linarith+
  then have hd: "hd (drop (length es div 2) es) = es ! (length es div 2)"
    by (simp add: hd_drop_conv_nth)
  show ?thesis
    unfolding hd
    using m(1) arr_ns_split_ok [OF _ m(3), of la ra] lst_ns_split_ok [OF _ assms(1), of ll lr]
      sk1_ns_split_ok [OF _ assms(1) _ assms(2), of sl sr]
      skp_ns_split_ok [OF _ assms(1) _ assms(2), of ml mr]
    by blast
qed

theorem split_keeps_lower_half_witness:
  "(\<exists>l r. arr_ns_split
            \<lparr>arr_cap = 3, arr_n = 3, arr_keys = [Some 1, Some 2, Some 3],
               arr_vals = [Some None, Some None, Some None]\<rparr>
            \<lparr>arr_cap = 3, arr_n = 0, arr_keys = [None, None, None],
               arr_vals = [None, None, None]\<rparr> = Inr (l, r, 2)
          \<and> arr_holds l [(1, None)] \<and> arr_holds r [(2, None), (3, None)])
   \<and> (\<exists>l r. lst_ns_split
            \<lparr>lst_cap = 3, lst_n = 3, lst_head = [(1, None), (2, None), (3, None)]\<rparr>
            \<lparr>lst_cap = 3, lst_n = 0, lst_head = []\<rparr> = Inr (l, r, 2)
          \<and> lst_holds l [(1, None)] \<and> lst_holds r [(2, None), (3, None)])
   \<and> (\<exists>l r. sk1_ns_split
            \<lparr>sk1_cap = 3, sk1_sl = \<lparr>sl_n = 3, sl_chain = [(1, None), (2, None), (3, None)]\<rparr>\<rparr>
            \<lparr>sk1_cap = 3, sk1_sl = \<lparr>sl_n = 0, sl_chain = []\<rparr>\<rparr> = Inr (l, r, 2)
          \<and> sk1_holds l [(1, None)] \<and> sk1_holds r [(2, None), (3, None)])
   \<and> (\<exists>l r. skp_ns_split
            \<lparr>arr_cap = 3, arr_n = 3, arr_keys = [Some 1, Some 2, Some 3],
               arr_vals = [Some None, Some None, Some None], skp_sl = [1, 2, 3]\<rparr>
            \<lparr>arr_cap = 3, arr_n = 0, arr_keys = [None, None, None],
               arr_vals = [None, None, None], skp_sl = []\<rparr> = Inr (l, r, 2)
          \<and> skp_holds l [(1, None)] \<and> skp_holds r [(2, None), (3, None)])"
proof -
  let ?es = "[(1, None), (2, None), (3, None)] :: (key \<times> ptr) list"
  have a: "2 \<le> length ?es" "sorted_wrt (<) (map fst ?es)"
    by simp_all
  have b: "length ?es div 2 = 1" "drop 1 ?es = [(2, None), (3, None)]" "take 1 ?es = [(1, None)]"
    by simp_all
  from split_keeps_lower_half [OF a,
      of "\<lparr>arr_cap = 3, arr_n = 3, arr_keys = [Some 1, Some 2, Some 3],
            arr_vals = [Some None, Some None, Some None]\<rparr>"
         "\<lparr>arr_cap = 3, arr_n = 0, arr_keys = [None, None, None],
            arr_vals = [None, None, None]\<rparr>"
         "\<lparr>lst_cap = 3, lst_n = 3, lst_head = [(1, None), (2, None), (3, None)]\<rparr>"
         "\<lparr>lst_cap = 3, lst_n = 0, lst_head = []\<rparr>"
         "\<lparr>sk1_cap = 3, sk1_sl = \<lparr>sl_n = 3, sl_chain = [(1, None), (2, None), (3, None)]\<rparr>\<rparr>"
         "\<lparr>sk1_cap = 3, sk1_sl = \<lparr>sl_n = 0, sl_chain = []\<rparr>\<rparr>"
         "\<lparr>arr_cap = 3, arr_n = 3, arr_keys = [Some 1, Some 2, Some 3],
            arr_vals = [Some None, Some None, Some None], skp_sl = [1, 2, 3]\<rparr>"
         "\<lparr>arr_cap = 3, arr_n = 0, arr_keys = [None, None, None],
            arr_vals = [None, None, None], skp_sl = []\<rparr>"]
  show ?thesis
    unfolding b
    by (simp add: arr_holds_def lst_holds_def sk1_holds_def)
qed

section \<open>The leaf split (C5)\<close>

text \<open>
  C5. In general: for a leaf \<open>p\<close> of an array-backed tree of order \<open>M\<close> that holds
  \<open>total = M\<close> keys (\<open>M \<ge> 2\<close>), \<open>split_leaf\<close> returns from its node work with the first
  \<open>ceil(total/2)\<close> keys in the leaf and the remaining \<open>total - ceil(total/2)\<close> keys in the
  new right leaf, the separator being the first key of the right leaf, and then calls
  \<open>insert_into_parent\<close> with them (in both versions). In particular: in an order-3 tree
  (of either version) the insertions of 10 and 20 leave one node, and after the
  insertion of 30 the height is 2 and there are three nodes (one leaf split and one new
  root): the root holds the single separator 30 over the leaves \<open>[10, 20]\<close> and \<open>[30]\<close>.
\<close>

theorem leaf_split_halves:
  assumes "ops t = nodestore_array_ops"
    and "p < length (nodes t)" and "nodes t ! p = Some lf"
    and "store lf = Array_store a" and "arr_holds a es"
    and "max_keys t = int (length es) - 1" and "arr_cap a = int (length es)"
    and "2 \<le> length es"
  shows "(\<exists>t' sep right.
            split_leaf_nodes t (Some p) = Inr (t', sep, right)
          \<and> split_leaf f t (Some p) = insert_into_parent f t' (Some p) sep right
          \<and> split_leaf_code f t (Some p) = insert_into_parent_code f t' (Some p) sep right
          \<and> node_key_list t' (Some p) = Inr (take ((length es + 1) div 2) (map fst es))
          \<and> node_key_list t' right = Inr (drop ((length es + 1) div 2) (map fst es))
          \<and> sep = hd (drop ((length es + 1) div 2) (map fst es))
          \<and> right = Some (length (nodes t))
          \<and> root t' = root t)
       \<and> map_sum id live_nodes (run 3 [Insert 10, Insert 20]) = Inr 1
       \<and> rbind (run 3 [Insert 10, Insert 20, Insert 30])
            (\<lambda>th. rbind (bptree_height th) (\<lambda>h. rbind (tree_shape th) (\<lambda>s.
                     Inr (h, s, live_nodes th))))
          = Inr (2, Node_shape [30] [Leaf_shape [10, 20], Leaf_shape [30]], 3)
       \<and> map_sum id live_nodes (run_code 3 [Insert 10, Insert 20]) = Inr 1
       \<and> rbind (run_code 3 [Insert 10, Insert 20, Insert 30])
            (\<lambda>th. rbind (bptree_height th) (\<lambda>h. rbind (tree_shape th) (\<lambda>s.
                     Inr (h, s, live_nodes th))))
          = Inr (2, Node_shape [30] [Leaf_shape [10, 20], Leaf_shape [30]], 3)"
proof -
  let ?ls = "(length es + 1) div 2" and ?L = "length (nodes t)"
  from split_leaf_nodes_ok [OF assms] obtain a1 a2 where
    r: "split_leaf_nodes t (Some p)
           = Inr (t\<lparr>nodes := (nodes t)[p := Some (lf\<lparr>store := Array_store a1,
                                                      nxt := Some ?L\<rparr>)]
                         @ [Some \<lparr>is_leaf = 1, node_max_keys = max_keys t, parent = parent lf,
                                  nxt = nxt lf, child0 = None, store = Array_store a2\<rparr>]\<rparr>,
                  fst (es ! ?ls), Some ?L)"
    and a1: "arr_holds a1 (map (\<lambda>k. (k, None)) (take ?ls (map fst es)))"
    and a2: "arr_holds a2 (map (\<lambda>k. (k, None)) (drop ?ls (map fst es)))"
    by blast
  let ?t' = "t\<lparr>nodes := (nodes t)[p := Some (lf\<lparr>store := Array_store a1, nxt := Some ?L\<rparr>)]
                         @ [Some \<lparr>is_leaf = 1, node_max_keys = max_keys t, parent = parent lf,
                                  nxt = nxt lf, child0 = None, store = Array_store a2\<rparr>]\<rparr>"
  have k1: "node_key_list ?t' (Some p) = Inr (map fst (map (\<lambda>k. (k, None :: ptr)) (take ?ls (map fst es))))"
  proof (rule node_key_list_holds [where b = a1 and nd = "lf\<lparr>store := Array_store a1, nxt := Some ?L\<rparr>"])
    show "ops ?t' = nodestore_array_ops" using assms(1) by simp
    show "p < length (nodes ?t')" using assms(2) by simp
    show "nodes ?t' ! p = Some (lf\<lparr>store := Array_store a1, nxt := Some ?L\<rparr>)"
      using assms(2) by (simp add: nth_append)
    show "store (lf\<lparr>store := Array_store a1, nxt := Some ?L\<rparr>) = Array_store a1" by simp
    show "arr_holds a1 (map (\<lambda>k. (k, None)) (take ?ls (map fst es)))" by (rule a1)
  qed
  have k2: "node_key_list ?t' (Some ?L) = Inr (map fst (map (\<lambda>k. (k, None :: ptr)) (drop ?ls (map fst es))))"
  proof (rule node_key_list_holds [where b = a2 and nd = "\<lparr>is_leaf = 1, node_max_keys = max_keys t, parent = parent lf,
                                  nxt = nxt lf, child0 = None, store = Array_store a2\<rparr>"])
    show "ops ?t' = nodestore_array_ops" using assms(1) by simp
    show "?L < length (nodes ?t')" by simp
    show "nodes ?t' ! ?L = Some \<lparr>is_leaf = 1, node_max_keys = max_keys t, parent = parent lf,
                                  nxt = nxt lf, child0 = None, store = Array_store a2\<rparr>"
      by (simp add: nth_append)
    show "store \<lparr>is_leaf = 1, node_max_keys = max_keys t, parent = parent lf,
                                  nxt = nxt lf, child0 = None, store = Array_store a2\<rparr> = Array_store a2" by simp
    show "arr_holds a2 (map (\<lambda>k. (k, None)) (drop ?ls (map fst es)))" by (rule a2)
  qed
  from assms(8) have ls: "?ls < length es" by linarith
  then have sep: "fst (es ! ?ls) = hd (drop ?ls (map fst es))"
    by (simp add: hd_drop_conv_nth)
  have g: "\<exists>t' sep right.
            split_leaf_nodes t (Some p) = Inr (t', sep, right)
          \<and> split_leaf f t (Some p) = insert_into_parent f t' (Some p) sep right
          \<and> split_leaf_code f t (Some p) = insert_into_parent_code f t' (Some p) sep right
          \<and> node_key_list t' (Some p) = Inr (take ?ls (map fst es))
          \<and> node_key_list t' right = Inr (drop ?ls (map fst es))
          \<and> sep = hd (drop ?ls (map fst es))
          \<and> right = Some ?L
          \<and> root t' = root t"
    using r k1 k2 sep
    by (intro exI [of _ ?t'] exI [of _ "fst (es ! ?ls)"] exI [of _ "Some ?L"])
      (simp add: split_leaf_def split_leaf_code_def comp_def)
  have c1: "map_sum id live_nodes (run 3 [Insert 10, Insert 20]) = Inr 1"
    by code_simp
  have c2: "rbind (run 3 [Insert 10, Insert 20, Insert 30])
            (\<lambda>th. rbind (bptree_height th) (\<lambda>h. rbind (tree_shape th) (\<lambda>s.
                     Inr (h, s, live_nodes th))))
          = Inr (2, Node_shape [30] [Leaf_shape [10, 20], Leaf_shape [30]], 3)"
    by code_simp
  have c3: "map_sum id live_nodes (run_code 3 [Insert 10, Insert 20]) = Inr 1"
    by code_simp
  have c4: "rbind (run_code 3 [Insert 10, Insert 20, Insert 30])
            (\<lambda>th. rbind (bptree_height th) (\<lambda>h. rbind (tree_shape th) (\<lambda>s.
                     Inr (h, s, live_nodes th))))
          = Inr (2, Node_shape [30] [Leaf_shape [10, 20], Leaf_shape [30]], 3)"
    by code_simp
  from g c1 c2 c3 c4 show ?thesis by blast
qed

theorem leaf_split_halves_witness:
  "\<exists>t'. split_leaf_nodes overflowing_leaf (Some 0) = Inr (t', 30, Some 1)
       \<and> node_key_list t' (Some 0) = Inr [10, 20]
       \<and> node_key_list t' (Some 1) = Inr [30]
       \<and> split_leaf 2 overflowing_leaf (Some 0) = insert_into_parent 2 t' (Some 0) 30 (Some 1)"
proof -
  let ?a = "\<lparr>arr_cap = 3, arr_n = 3, arr_keys = [Some 10, Some 20, Some 30],
              arr_vals = [Some None, Some None, Some None]\<rparr>"
  let ?lf = "\<lparr>is_leaf = 1, node_max_keys = 2, parent = None, nxt = None, child0 = None,
               store = Array_store ?a\<rparr>"
  let ?es = "[(10, None), (20, None), (30, None)] :: (key \<times> ptr) list"
  have h: "ops overflowing_leaf = nodestore_array_ops" "0 < length (nodes overflowing_leaf)"
    "nodes overflowing_leaf ! 0 = Some ?lf" "store ?lf = Array_store ?a" "arr_holds ?a ?es"
    "max_keys overflowing_leaf = int (length ?es) - 1" "arr_cap ?a = int (length ?es)"
    "2 \<le> length ?es"
    by (simp_all add: overflowing_leaf_def arr_holds_def)
  from leaf_split_halves [OF h, of 2] show ?thesis
    by (auto simp: overflowing_leaf_def)
qed

section \<open>The capacity of the stores (C9)\<close>

text \<open>
  C9. Take any sequence \<open>os\<close> of insertions and deletions on the tree that
  \<open>bptree_create(M, NULL)\<close> returns (the array backend; an order below 3 is raised
  to 3), in either version of bptree.c. Then

  \<^item> the run never stops at the assertion \<open>s->n < s->cap\<close> of \<open>ns_insert_at\<close>: every
    \<open>insert_at\<close> call issued by the tree finds its store below its capacity \<open>M\<close>;

  \<^item> when the run returns, every store of the tree holds at most \<open>M - 1\<close> entries, and
    every store has capacity \<open>M\<close>;

  \<^item> inserting one entry into a node of such a tree gives at most \<open>M\<close> entries in a
    store, and the split that follows (\<open>split_leaf\<close> up to its call of
    \<open>insert_into_parent\<close>) returns a tree whose stores are again at most \<open>M - 1\<close>.

  The proof carries the list of store sizes through every function, including the
  borrow and merge functions of the rebalancing version; it needs no fact about the
  shape of the tree.
\<close>

theorem capacity_assertion_unreachable:
  "run M os \<noteq> Inl Capacity_assert
   \<and> run_code M os \<noteq> Inl Capacity_assert
   \<and> (\<forall>t. run M os = Inr (Some t) \<or> run_code M os = Inr (Some t) \<longrightarrow>
          within_capacity t \<and> order_M t = max M 3
          \<and> (\<forall>leaf i k t1. upd_store t leaf (\<lambda>s. op_insert_at (ops t) s i k None) = Inr t1 \<longrightarrow>
                list_all (\<lambda>s. s \<le> order_M t) (szs t1)
                \<and> (\<forall>t2 sep right. split_leaf_nodes t1 leaf = Inr (t2, sep, right)
                      \<longrightarrow> within_capacity t2)))"
proof -
  have m: "3 \<le> max M 3"
    by simp
  have r: "within_capacity t \<and> order_M t = max M 3
          \<and> (\<forall>leaf i k t1. upd_store t leaf (\<lambda>s. op_insert_at (ops t) s i k None) = Inr t1 \<longrightarrow>
                list_all (\<lambda>s. s \<le> order_M t) (szs t1)
                \<and> (\<forall>t2 sep right. split_leaf_nodes t1 leaf = Inr (t2, sep, right)
                      \<longrightarrow> within_capacity t2))"
    if "bndo (max M 3) (Some t)" for t
  proof -
    from that have b: "bnd (max M 3) t"
      by (simp add: bndo_def)
    show ?thesis
      using bnd_within_capacity [OF b m] wfM_order [OF bnd_wf [OF b]]
        transient_overflow [OF b m]
      by blast
  qed
  have a: "run M os \<noteq> Inl Capacity_assert" "run_code M os \<noteq> Inl Capacity_assert"
    using okv_run [of M os] okv_run_code [of M os] by (simp_all add: okv_def)
  have "bndo (max M 3) (Some t)" if "run M os = Inr (Some t) \<or> run_code M os = Inr (Some t)" for t
    using okv_run [of M os] okv_run_code [of M os] that by (auto simp: okv_def)
  with a r show ?thesis
    by blast
qed

theorem capacity_assertion_unreachable_witness:
  "(case run 4 [Insert 1, Insert 2, Insert 3, Insert 4, Insert 5, Insert 6, Insert 7, Delete 3] of
      Inl e \<Rightarrow> False | Inr None \<Rightarrow> False
    | Inr (Some t) \<Rightarrow> within_capacity t \<and> order_M t = 4 \<and> live_nodes (Some t) = 4)
   \<and> (case run_code 3 [Insert 10, Insert 20] of
      Inl e \<Rightarrow> False | Inr None \<Rightarrow> False
    | Inr (Some t) \<Rightarrow>
        within_capacity t \<and> szs t = [2]
        \<and> (case upd_store t (Some 0) (\<lambda>s. op_insert_at (ops t) s 2 30 None) of
             Inl e \<Rightarrow> False
           | Inr t1 \<Rightarrow>
               szs t1 = [3] \<and> list_all (\<lambda>s. s \<le> order_M t) (szs t1)
               \<and> (case split_leaf_nodes t1 (Some 0) of
                     Inl e \<Rightarrow> False
                   | Inr (t2, sep, right) \<Rightarrow> szs t2 = [2, 1] \<and> within_capacity t2)))"
proof -
  let ?os = "[Insert 1, Insert 2, Insert 3, Insert 4, Insert 5, Insert 6, Insert 7, Delete 3]"
  have a: "case run 4 ?os of Inl e \<Rightarrow> False | Inr None \<Rightarrow> False
           | Inr (Some t) \<Rightarrow> live_nodes (Some t) = 4"
    by code_simp
  have b: "case run_code 3 [Insert 10, Insert 20] of
      Inl e \<Rightarrow> False | Inr None \<Rightarrow> False
    | Inr (Some t) \<Rightarrow>
        szs t = [2]
        \<and> (case upd_store t (Some 0) (\<lambda>s. op_insert_at (ops t) s 2 30 None) of
             Inl e \<Rightarrow> False
           | Inr t1 \<Rightarrow>
               szs t1 = [3]
               \<and> (case split_leaf_nodes t1 (Some 0) of
                     Inl e \<Rightarrow> False
                   | Inr (t2, sep, right) \<Rightarrow> szs t2 = [2, 1]))"
    by code_simp
  from a capacity_assertion_unreachable [of 4 ?os]
  have one: "case run 4 ?os of
      Inl e \<Rightarrow> False | Inr None \<Rightarrow> False
    | Inr (Some t) \<Rightarrow> within_capacity t \<and> order_M t = 4 \<and> live_nodes (Some t) = 4"
    by (auto split: sum.splits option.splits)
  from b capacity_assertion_unreachable [of 3 "[Insert 10, Insert 20]"]
  have two: "case run_code 3 [Insert 10, Insert 20] of
      Inl e \<Rightarrow> False | Inr None \<Rightarrow> False
    | Inr (Some t) \<Rightarrow>
        within_capacity t \<and> szs t = [2]
        \<and> (case upd_store t (Some 0) (\<lambda>s. op_insert_at (ops t) s 2 30 None) of
             Inl e \<Rightarrow> False
           | Inr t1 \<Rightarrow>
               szs t1 = [3] \<and> list_all (\<lambda>s. s \<le> order_M t) (szs t1)
               \<and> (case split_leaf_nodes t1 (Some 0) of
                     Inl e \<Rightarrow> False
                   | Inr (t2, sep, right) \<Rightarrow> szs t2 = [2, 1] \<and> within_capacity t2))"
    by (auto split: sum.splits option.splits prod.splits)
  from one two show ?thesis
    by blast
qed

end
